theory Spec2Isabelle
  imports Complex_Main "HOL-Library.Word"
begin

section \<open>Strings\<close>

text \<open>
  A string of the program is a sequence of UTF-16 code units. A code unit is modelled
  by its number; nothing below depends on the bound \<open>65535\<close>.
\<close>

type_synonym code_unit = nat
type_synonym jsstring = "code_unit list"

definition str :: "string \<Rightarrow> jsstring" where
  "str cs = map of_char cs"

text \<open>
  \<^verbatim>\<open>String.prototype.trim\<close> strips white space and line terminators from both ends:
  TAB, LF, VT, FF, CR, SPACE, NBSP, U+1680, U+2000 to U+200A, U+2028, U+2029, U+202F,
  U+205F, U+3000 and U+FEFF.
\<close>

definition isWhiteSpace :: "code_unit \<Rightarrow> bool" where
  "isWhiteSpace c =
     (c \<in> {9, 10, 11, 12, 13, 32, 160, 5760, 8232, 8233, 8239, 8287, 12288, 65279}
      \<or> (8192 \<le> c \<and> c \<le> 8202))"

definition trim :: "jsstring \<Rightarrow> jsstring" where
  "trim s = rev (dropWhile isWhiteSpace (rev (dropWhile isWhiteSpace s)))"

text \<open>\<^verbatim>\<open>String.prototype.includes\<close>: the needle occurs at some position.\<close>

fun includes_str :: "jsstring \<Rightarrow> jsstring \<Rightarrow> bool" where
  "includes_str [] needle = (needle = [])"
| "includes_str (c # cs) needle =
     (take (length needle) (c # cs) = needle \<or> includes_str cs needle)"

section \<open>Content filter (LiveConversation.tsx, filterProfanity)\<close>

definition SFW_PROFANITY_LIST :: "jsstring list" where
  "SFW_PROFANITY_LIST = [str ''darn'', str ''heck'', str ''gosh'', str ''shoot'']"

definition star :: code_unit where
  "star = 42"

text \<open>
  The regular expression \<^verbatim>\<open>\bword\b\<close> with flags \<^verbatim>\<open>gi\<close> (no \<^verbatim>\<open>u\<close> flag). A word
  character is one of \<^verbatim>\<open>[A-Za-z0-9_]\<close>; \<^verbatim>\<open>\b\<close> holds at a position where exactly one of
  the characters before and after it is a word character (a missing character is not).
\<close>

definition isWordChar :: "code_unit \<Rightarrow> bool" where
  "isWordChar c =
     ((65 \<le> c \<and> c \<le> 90) \<or> (97 \<le> c \<and> c \<le> 122) \<or> (48 \<le> c \<and> c \<le> 57) \<or> c = 95)"

definition isWordBoundary :: "jsstring \<Rightarrow> nat \<Rightarrow> bool" where
  "isWordBoundary s e =
     ((0 < e \<and> isWordChar (s ! (e - 1))) \<noteq> (e < length s \<and> isWordChar (s ! e)))"

text \<open>
  Case-insensitive comparison without the \<^verbatim>\<open>u\<close> flag compares the upper-case forms of
  single code units, and a code unit from 128 on is never mapped below 128. The upper
  case of a code unit from 128 on is left out here: the patterns are ASCII, and such a
  code unit differs from every ASCII letter either way.
\<close>

definition canonicalize :: "code_unit \<Rightarrow> code_unit" where
  "canonicalize c = (if 97 \<le> c \<and> c \<le> 122 then c - 32 else c)"

definition matchAt :: "jsstring \<Rightarrow> jsstring \<Rightarrow> nat \<Rightarrow> bool" where
  "matchAt w s i =
     (isWordBoundary s i \<and> i + length w \<le> length s \<and>
      map canonicalize (take (length w) (drop i s)) = map canonicalize w \<and>
      isWordBoundary s (i + length w))"

text \<open>
  \<^verbatim>\<open>text.replace(regex, replacement)\<close> with a global expression: scanning from the
  left, each match is replaced and the scan goes on behind it.
\<close>

function replace :: "jsstring \<Rightarrow> jsstring \<Rightarrow> jsstring \<Rightarrow> nat \<Rightarrow> jsstring" where
  "replace w r s i =
     (if length s \<le> i then []
      else if w \<noteq> [] \<and> matchAt w s i then r @ replace w r s (i + length w)
      else s ! i # replace w r s (Suc i))"
  by pat_completeness auto
termination
  by (relation "measure (\<lambda>(w, r, s, i). length s - i)") (auto simp: neq_Nil_conv)

declare replace.simps [simp del]

definition filterProfanity :: "jsstring \<Rightarrow> jsstring" where
  "filterProfanity text =
     foldl (\<lambda>filteredText word. replace word (replicate (length word) star) filteredText 0)
       text SFW_PROFANITY_LIST"

section \<open>PCM frame encoder and decoder (LiveConversation.tsx)\<close>

text \<open>
  The capture callback \<^verbatim>\<open>onaudioprocess\<close> stores \<^verbatim>\<open>inputData[i] * 32768\<close> into an
  \<^verbatim>\<open>Int16Array\<close>. The store applies the language's ToInt16 conversion: the number is
  truncated towards zero, reduced modulo \<open>2 ^ 16\<close> and read as two's complement. A
  finite 32-bit float is a dyadic rational, its product with \<open>32768\<close> is exact in double
  precision, and so is the quotient of a 16-bit integer by \<open>32768\<close>; samples are
  therefore modelled as reals without loss.
\<close>

type_synonym int16 = "16 word"

definition trunc :: "real \<Rightarrow> int" where
  "trunc x = (if 0 \<le> x then \<lfloor>x\<rfloor> else \<lceil>x\<rceil>)"

definition toInt16 :: "real \<Rightarrow> int16" where
  "toInt16 x = word_of_int (trunc x)"

text \<open>
  The loop \<^verbatim>\<open>for (i = 0; i < l; i++) int16[i] = inputData[i] * 32768\<close>: the frame the
  callback computes from a block. The callback then wraps the frame's bytes in base64
  and hands them to the session; the byte view and the base64 text only carry the 16-bit
  samples and are left out, here and for the chunks received.
\<close>

definition onaudioprocess :: "real list \<Rightarrow> int16 list" where
  "onaudioprocess inputData = map (\<lambda>x. toInt16 (x * 32768)) inputData"

text \<open>
  \<^verbatim>\<open>decodeAudioData\<close> creates a one-channel buffer at 24000 Hz with one frame per
  16-bit sample and fills it with \<^verbatim>\<open>dataInt16[i] / 32768.0\<close>. The duration of a buffer
  is its number of frames over its sample rate.
\<close>

record audioBuffer =
  sampleRate :: real
  channelData :: "real list"

definition duration :: "audioBuffer \<Rightarrow> real" where
  "duration b = real (length (channelData b)) / sampleRate b"

definition decodeAudioData :: "int16 list \<Rightarrow> audioBuffer" where
  "decodeAudioData dataInt16 =
     \<lparr>sampleRate = 24000,
      channelData = map (\<lambda>w. real_of_int (sint w) / 32768) dataInt16\<rparr>"

text \<open>
  The specification's wording of the encoder, for comparison: each sample is
  \<open>round (sample * 32768)\<close>. HOL's \<^const>\<open>round\<close> is \<open>\<lfloor>x + 1/2\<rfloor>\<close>, as is
  \<^verbatim>\<open>Math.round\<close>.
\<close>

definition spec_round_encoder :: "real list \<Rightarrow> int16 list" where
  "spec_round_encoder inputData = map (\<lambda>x. word_of_int (round (x * 32768))) inputData"

section \<open>Turn aggregation (LiveConversation.tsx, onmessage)\<close>

datatype speaker = User | Model

record groundingChunk =
  web :: "(jsstring \<times> jsstring) option"
  maps :: "(jsstring \<times> jsstring) option"

record transcriptEntry =
  speaker :: speaker
  entryText :: jsstring
  sources :: "groundingChunk list option"

record turn =
  user :: jsstring
  model :: jsstring
  modelSources :: "groundingChunk list"

text \<open>
  A server message. A transcription object may lack its \<^verbatim>\<open>text\<close>; \<^verbatim>\<open>+=\<close> then
  appends the string \<^verbatim>\<open>undefined\<close>. The audio part of the model turn is absent, or
  carries PCM samples, or makes the handler throw: \<open>BadPart\<close> when reading
  \<^verbatim>\<open>parts[0]?.inlineData.data\<close> fails, \<open>BadData\<close> when base64 decoding, the 16-bit view
  or the buffer creation fails.
\<close>

datatype transcription = Transcription (transcriptionText: "jsstring option")

datatype audioPart = NoAudio | BadPart | BadData | InlineAudio "int16 list"

record serverContent =
  inputTranscription :: "transcription option"
  outputTranscription :: "transcription option"
  turnComplete :: bool
  groundingChunks :: "groundingChunk list option"
  modelTurn :: audioPart
  interrupted :: bool

type_synonym liveServerMessage = "serverContent option"

definition appendText :: "jsstring \<Rightarrow> transcription \<Rightarrow> jsstring" where
  "appendText s t =
     s @ (case transcriptionText t of None \<Rightarrow> str ''undefined'' | Some x \<Rightarrow> x)"

definition userEntry :: "jsstring \<Rightarrow> transcriptEntry" where
  "userEntry userText =
     \<lparr>speaker = User, entryText = filterProfanity userText, sources = None\<rparr>"

text \<open>
  The updater passed to \<^verbatim>\<open>setCurrentTurn\<close>: it returns the new pending turn and the
  entries it appends to the transcript.
\<close>

definition onmessage_setCurrentTurn ::
    "liveServerMessage \<Rightarrow> turn \<Rightarrow> turn \<times> transcriptEntry list" where
  "onmessage_setCurrentTurn message prevTurn =
     (let input = (case message of None \<Rightarrow> None | Some c \<Rightarrow> inputTranscription c);
          output = (case message of None \<Rightarrow> None | Some c \<Rightarrow> outputTranscription c);
          hasInput = (input \<noteq> None);
          hasOutput = (output \<noteq> None);
          isTurnComplete = (case message of None \<Rightarrow> False | Some c \<Rightarrow> turnComplete c);
          newSources = (case message of None \<Rightarrow> None | Some c \<Rightarrow> groundingChunks c);
          t1 = (case newSources of
                  None \<Rightarrow> prevTurn
                | Some ns \<Rightarrow> prevTurn\<lparr>modelSources := modelSources prevTurn @ ns\<rparr>);
          switch = (hasOutput \<and> user t1 \<noteq> []);
          updates1 = (if switch \<and> trim (user t1) \<noteq> [] then [userEntry (trim (user t1))]
                      else []);
          t2 = (if switch then t1\<lparr>user := []\<rparr> else t1);
          t3 = (case input of None \<Rightarrow> t2 | Some i \<Rightarrow> t2\<lparr>user := appendText (user t2) i\<rparr>);
          t4 = (case output of None \<Rightarrow> t3 | Some out \<Rightarrow> t3\<lparr>model := appendText (model t3) out\<rparr>);
          updates2 =
            (if isTurnComplete
             then (if trim (user t4) \<noteq> [] then [userEntry (trim (user t4))] else []) @
                  (if model t4 \<noteq> []
                   then [\<lparr>speaker = Model, entryText = model t4,
                          sources = Some (modelSources t4)\<rparr>]
                   else [])
             else []);
          newTurn = (if isTurnComplete then \<lparr>user = [], model = [], modelSources = []\<rparr>
                     else t4)
      in (newTurn, updates1 @ updates2))"

text \<open>The pending bubbles of the render function.\<close>

definition pendingUserBubble :: "turn \<Rightarrow> jsstring option" where
  "pendingUserBubble t = (if user t \<noteq> [] then Some (filterProfanity (user t)) else None)"

definition pendingModelBubble :: "turn \<Rightarrow> jsstring option" where
  "pendingModelBubble t = (if model t \<noteq> [] then Some (model t) else None)"

section \<open>Playback (LiveConversation.tsx)\<close>

datatype audioContextState = Suspended | Running | Closed

record bufferSource =
  buffer :: audioBuffer
  sourceRate :: real
  startTime :: real

text \<open>
  The part of the component's state the playback code touches, with the output audio
  context's state and clock. \<open>halted\<close> lists the source nodes on which \<^verbatim>\<open>stop()\<close> has
  been called. The set \<^verbatim>\<open>sourcesRef\<close> iterates in insertion order and is a list here.
\<close>

record session =
  transcript :: "transcriptEntry list"
  currentTurn :: turn
  playbackRateRef :: real
  isPaused :: bool
  ctxState :: audioContextState
  currentTime :: real
  sourcesRef :: "bufferSource list"
  nextStartTimeRef :: real
  halted :: "bufferSource list"

text \<open>The state after \<^verbatim>\<open>startConversation\<close> on a freshly mounted component.\<close>

definition initialSession :: session where
  "initialSession =
     \<lparr>transcript = [], currentTurn = \<lparr>user = [], model = [], modelSources = []\<rparr>,
      playbackRateRef = 1, isPaused = False, ctxState = Running, currentTime = 0,
      sourcesRef = [], nextStartTimeRef = 0, halted = []\<rparr>"

definition handlePauseResume :: "session \<Rightarrow> session" where
  "handlePauseResume s =
     (if ctxState s = Running then s\<lparr>ctxState := Suspended, isPaused := True\<rparr>
      else if ctxState s = Suspended then s\<lparr>ctxState := Running, isPaused := False\<rparr>
      else s)"

definition handleStopPlayback :: "session \<Rightarrow> session" where
  "handleStopPlayback s =
     (let s1 = s\<lparr>halted := halted s @ sourcesRef s, sourcesRef := [], nextStartTimeRef := 0\<rparr>
      in if ctxState s1 = Suspended then s1\<lparr>ctxState := Running, isPaused := False\<rparr>
         else s1\<lparr>isPaused := False\<rparr>)"

text \<open>
  The effect that follows a change of the \<^verbatim>\<open>playbackRate\<close> state: the reference takes
  the new rate, and so does every source in the set.
\<close>

definition setPlaybackRate :: "real \<Rightarrow> session \<Rightarrow> session" where
  "setPlaybackRate r s =
     s\<lparr>playbackRateRef := r, sourcesRef := map (\<lambda>source. source\<lparr>sourceRate := r\<rparr>) (sourcesRef s)\<rparr>"

text \<open>The listener for \<^verbatim>\<open>ended\<close> removes the source from the set.\<close>

definition onended :: "bufferSource \<Rightarrow> session \<Rightarrow> session" where
  "onended source s = s\<lparr>sourcesRef := removeAll source (sourcesRef s)\<rparr>"

text \<open>The audio block of \<^verbatim>\<open>onmessage\<close> for a chunk that decodes.\<close>

definition onmessage_audio :: "int16 list \<Rightarrow> session \<Rightarrow> session" where
  "onmessage_audio data s =
     (let start = max (nextStartTimeRef s) (currentTime s);
          audioBuffer = decodeAudioData data;
          source = \<lparr>buffer = audioBuffer, sourceRate = playbackRateRef s, startTime = start\<rparr>
      in s\<lparr>nextStartTimeRef := start + duration audioBuffer / playbackRateRef s,
           sourcesRef := sourcesRef s @ [source]\<rparr>)"

definition onmessage_interrupted :: "liveServerMessage \<Rightarrow> session \<Rightarrow> session" where
  "onmessage_interrupted message s =
     (if (case message of None \<Rightarrow> False | Some c \<Rightarrow> interrupted c) then handleStopPlayback s
      else s)"

text \<open>
  The message handler: the turn update, then the audio block, then the interruption. A
  handler runs to its end before the next event is taken, and a promise it waits for
  (decoding, suspending, resuming) is settled within the step. When the audio part makes
  the handler throw, the rest of the handler is not run. An empty data string is falsy:
  \<^verbatim>\<open>if (base64Audio)\<close> skips the audio block, as it does when there is no audio part.
\<close>

definition onmessage :: "liveServerMessage \<Rightarrow> session \<Rightarrow> session" where
  "onmessage message s =
     (let (newTurn, transcriptUpdates) = onmessage_setCurrentTurn message (currentTurn s);
          s1 = s\<lparr>currentTurn := newTurn, transcript := transcript s @ transcriptUpdates\<rparr>
      in case (case message of None \<Rightarrow> NoAudio | Some c \<Rightarrow> modelTurn c) of
           NoAudio \<Rightarrow> onmessage_interrupted message s1
         | BadPart \<Rightarrow> s1
         | BadData \<Rightarrow>
             s1\<lparr>nextStartTimeRef := max (nextStartTimeRef s1) (currentTime s1)\<rparr>
         | InlineAudio data \<Rightarrow>
             if data = [] then onmessage_interrupted message s1
             else onmessage_interrupted message (onmessage_audio data s1))"

text \<open>
  What happens to a session, in order: the clock advances while the context runs, a
  server message arrives, the user presses a control, a source ends.
\<close>

datatype event =
    Tick real
  | ServerMessage liveServerMessage
  | StopClick
  | PauseResumeClick
  | RateChange real
  | SourceEnded bufferSource

fun step :: "event \<Rightarrow> session \<Rightarrow> session" where
  "step (Tick dt) s =
     (if ctxState s = Running then s\<lparr>currentTime := currentTime s + max 0 dt\<rparr> else s)"
| "step (ServerMessage message) s = onmessage message s"
| "step StopClick s = handleStopPlayback s"
| "step PauseResumeClick s = handlePauseResume s"
| "step (RateChange r) s = setPlaybackRate r s"
| "step (SourceEnded source) s = onended source s"

definition run :: "event list \<Rightarrow> session \<Rightarrow> session" where
  "run events s = fold step events s"

section \<open>Retry helper and chat service (geminiService.ts)\<close>

datatype js_error = JsError (errName: jsstring) (errMessage: jsstring)

text \<open>\<^verbatim>\<open>Error.prototype.toString\<close>.\<close>

definition toString :: "js_error \<Rightarrow> jsstring" where
  "toString e =
     (if errName e = [] then errMessage e
      else if errMessage e = [] then errName e
      else errName e @ str '': '' @ errMessage e)"

definition isRetryable :: "js_error \<Rightarrow> bool" where
  "isRetryable error =
     (includes_str (toString error) (str ''429'') \<or> includes_str (toString error) (str ''500''))"

text \<open>
  The loop of \<^verbatim>\<open>withRetry\<close>. \<open>apiCall k\<close> is the outcome of the call number \<open>k\<close>
  (from 0), \<open>random k\<close> the value of the \<open>k\<close>-th \<^verbatim>\<open>Math.random()\<close>. The result is the
  outcome together with the delays waited, in milliseconds. Each failed call that is
  retried increments \<open>retries\<close>, so the next call is call number \<open>retries\<close>.
\<close>

function withRetry_loop ::
    "(nat \<Rightarrow> js_error + 'a) \<Rightarrow> (nat \<Rightarrow> real) \<Rightarrow> nat \<Rightarrow> real \<Rightarrow> nat \<Rightarrow> real list
      \<Rightarrow> (js_error + 'a) \<times> real list" where
  "withRetry_loop apiCall random maxRetries initialDelay retries waited =
     (case apiCall retries of
        Inr v \<Rightarrow> (Inr v, waited)
      | Inl error \<Rightarrow>
          if isRetryable error \<and> retries < maxRetries
          then withRetry_loop apiCall random maxRetries initialDelay (retries + 1)
                 (waited @ [initialDelay * 2 ^ (retries + 1 - 1) + random retries * 1000])
          else (Inl error, waited))"
  by pat_completeness auto
termination
  by (relation "measure (\<lambda>(apiCall, random, maxRetries, initialDelay, retries, waited).
        maxRetries - retries)") auto

declare withRetry_loop.simps [simp del]

definition withRetry ::
    "(nat \<Rightarrow> js_error + 'a) \<Rightarrow> (nat \<Rightarrow> real) \<Rightarrow> nat \<Rightarrow> real
      \<Rightarrow> (js_error + 'a) \<times> real list" where
  "withRetry apiCall random maxRetries initialDelay =
     withRetry_loop apiCall random maxRetries initialDelay 0 []"

text \<open>The module variable \<^verbatim>\<open>chat\<close> holds no session until \<^verbatim>\<open>startChat\<close> creates one.\<close>

record chat =
  chatModel :: jsstring
  systemInstruction :: jsstring
  googleSearch :: bool

definition startChat :: "bool \<Rightarrow> chat option \<Rightarrow> chat option" where
  "startChat useGrounding c =
     Some \<lparr>chatModel = str ''gemini-2.5-flash'',
           systemInstruction = str ''You are a helpful and friendly chatbot.'',
           googleSearch = useGrounding\<rparr>"

text \<open>
  \<open>sendMessageStream c message\<close> stands for the SDK's method on the session \<open>c\<close>: the
  outcomes of its successive calls. The defaults of \<^verbatim>\<open>withRetry\<close> are 3 and 2000.
\<close>

definition sendMessageToChat ::
    "(chat \<Rightarrow> jsstring \<Rightarrow> nat \<Rightarrow> js_error + 'a) \<Rightarrow> (nat \<Rightarrow> real) \<Rightarrow> chat option \<Rightarrow> jsstring
      \<Rightarrow> (js_error + 'a) \<times> real list" where
  "sendMessageToChat sendMessageStream random c message =
     (case c of
        None \<Rightarrow>
          (Inl (JsError (str ''Error'') (str ''Chat not initialized. Call startChat first.'')), [])
      | Some session \<Rightarrow> withRetry (sendMessageStream session message) random 3 2000)"

datatype chatCall = StartChat bool | SendMessageToChat jsstring

text \<open>
  A sequence of calls into the module, from a given value of \<^verbatim>\<open>chat\<close>: the results of
  the \<^verbatim>\<open>sendMessageToChat\<close> calls are collected in order (\<open>None\<close> for a \<^verbatim>\<open>startChat\<close>).
\<close>

fun chatCalls ::
    "(chat \<Rightarrow> jsstring \<Rightarrow> nat \<Rightarrow> js_error + 'a) \<Rightarrow> (nat \<Rightarrow> real) \<Rightarrow> chatCall list \<Rightarrow> chat option
      \<Rightarrow> ((js_error + 'a) \<times> real list) option list" where
  "chatCalls sendMessageStream random [] c = []"
| "chatCalls sendMessageStream random (StartChat useGrounding # calls) c =
     None # chatCalls sendMessageStream random calls (startChat useGrounding c)"
| "chatCalls sendMessageStream random (SendMessageToChat message # calls) c =
     Some (sendMessageToChat sendMessageStream random c message)
       # chatCalls sendMessageStream random calls c"

section \<open>Notions used to state the properties\<close>

text \<open>
  The definitions of this section are not part of the program. They name the events of a
  run, concrete messages, and the properties the theorems below are about.
\<close>

text \<open>
  The description of the content filter, for comparison with the scan: a word
  \<^emph>\<open>occurs\<close> at a position when the characters there equal it up to the case of ASCII
  letters and no word character (letter, digit or underscore) stands directly before or
  behind them; a position is \<^emph>\<open>censored\<close> when it lies inside an occurrence of a listed
  word; the filtered text has an asterisk at every censored position and the original
  character elsewhere.
\<close>

definition lower :: "code_unit \<Rightarrow> code_unit" where
  "lower c = (if 65 \<le> c \<and> c \<le> 90 then c + 32 else c)"

definition occursAt :: "jsstring \<Rightarrow> jsstring \<Rightarrow> nat \<Rightarrow> bool" where
  "occursAt w s j =
     (j + length w \<le> length s \<and>
      map lower (take (length w) (drop j s)) = w \<and>
      \<not> (0 < j \<and> isWordChar (s ! (j - 1))) \<and>
      \<not> (j + length w < length s \<and> isWordChar (s ! (j + length w))))"

definition censored :: "jsstring \<Rightarrow> nat \<Rightarrow> bool" where
  "censored s i =
     (\<exists>w\<in>set SFW_PROFANITY_LIST. \<exists>j\<in>{..i}. i < j + length w \<and> occursAt w s j)"

definition spec_filterProfanity :: "jsstring \<Rightarrow> jsstring" where
  "spec_filterProfanity s = map (\<lambda>i. if censored s i then star else s ! i) [0..<length s]"

text \<open>
  Auxiliary notions of the proof: a non-empty word of lower-case ASCII letters, the
  positions inside a match of the regular expression for a word of a set, and the text
  with these positions starred.
\<close>

definition lowercase :: "jsstring \<Rightarrow> bool" where
  "lowercase w = (w \<noteq> [] \<and> (\<forall>c\<in>set w. 97 \<le> c \<and> c \<le> 122))"

definition covered :: "jsstring set \<Rightarrow> jsstring \<Rightarrow> nat \<Rightarrow> bool" where
  "covered W s i = (\<exists>w\<in>W. \<exists>j\<le>i. i < j + length w \<and> matchAt w s j)"

definition censor :: "jsstring set \<Rightarrow> jsstring \<Rightarrow> jsstring" where
  "censor W s = map (\<lambda>i. if covered W s i then star else s ! i) [0..<length s]"

text \<open>
  Two scheduled sources, the first submitted before the second, do not overlap: the
  first starts no later than the second and has ended, at the rate it was scheduled
  with, when the second starts.
\<close>

definition noOverlap :: "bufferSource \<Rightarrow> bufferSource \<Rightarrow> bool" where
  "noOverlap a b =
     (startTime a \<le> startTime b \<and>
      startTime a + duration (buffer a) / sourceRate a \<le> startTime b)"

text \<open>
  The samples a server message submits to the scheduler: it carries a non-empty audio
  chunk and does not interrupt. An event submits when it is a clock tick or such a
  message; an event keeps the rate when it is not a change of the playback rate.
\<close>

fun payload :: "event \<Rightarrow> int16 list option" where
  "payload (ServerMessage (Some c)) =
     (case modelTurn c of
        InlineAudio d \<Rightarrow> (if interrupted c \<or> d = [] then None else Some d)
      | _ \<Rightarrow> None)"
| "payload _ = None"

fun submits :: "event \<Rightarrow> bool" where
  "submits (Tick dt) = True"
| "submits e = (payload e \<noteq> None)"

fun keepsRate :: "event \<Rightarrow> bool" where
  "keepsRate (RateChange r) = False"
| "keepsRate e = True"

text \<open>
  The scheduling invariant: the sources of the set do not overlap, and the next start
  time lies at or behind the end of each of them.
\<close>

definition scheduled :: "session \<Rightarrow> bool" where
  "scheduled s =
     (sorted_wrt noOverlap (sourcesRef s) \<and>
      (\<forall>x\<in>set (sourcesRef s).
         startTime x \<le> nextStartTimeRef s \<and>
         startTime x + duration (buffer x) / sourceRate x \<le> nextStartTimeRef s))"

text \<open>
  Every source of the set has the rate in effect, and its buffer has a duration that
  is not negative.
\<close>

definition uniform :: "session \<Rightarrow> bool" where
  "uniform s =
     (\<forall>x\<in>set (sourcesRef s). sourceRate x = playbackRateRef s \<and> 0 \<le> duration (buffer x))"

text \<open>
  No source of the set starts before the time \<open>t\<close>, and the clock has reached it.
\<close>

definition notBefore :: "real \<Rightarrow> session \<Rightarrow> bool" where
  "notBefore t s = (t \<le> currentTime s \<and> (\<forall>x\<in>set (sourcesRef s). t \<le> startTime x))"

fun payloads :: "event list \<Rightarrow> int16 list list" where
  "payloads [] = []"
| "payloads (e # es) = (case payload e of None \<Rightarrow> [] | Some d \<Rightarrow> [d]) @ payloads es"

text \<open>
  Concrete messages: an audio chunk, an interruption, a user fragment, a model fragment,
  the end of a turn, and a model fragment that ends the turn.
\<close>

definition audioMessage :: "int16 list \<Rightarrow> event" where
  "audioMessage d =
     ServerMessage (Some \<lparr>inputTranscription = None, outputTranscription = None,
       turnComplete = False, groundingChunks = None, modelTurn = InlineAudio d,
       interrupted = False\<rparr>)"

definition interruptedMessage :: liveServerMessage where
  "interruptedMessage =
     Some \<lparr>inputTranscription = None, outputTranscription = None, turnComplete = False,
       groundingChunks = None, modelTurn = NoAudio, interrupted = True\<rparr>"

definition modelOnlyMessage :: "jsstring \<Rightarrow> liveServerMessage" where
  "modelOnlyMessage x =
     Some \<lparr>inputTranscription = None, outputTranscription = Some (Transcription (Some x)),
       turnComplete = True, groundingChunks = None, modelTurn = NoAudio,
       interrupted = False\<rparr>"

definition inputMessage :: "jsstring \<Rightarrow> liveServerMessage" where
  "inputMessage x =
     Some \<lparr>inputTranscription = Some (Transcription (Some x)), outputTranscription = None,
       turnComplete = False, groundingChunks = None, modelTurn = NoAudio,
       interrupted = False\<rparr>"

definition outputMessage :: "jsstring \<Rightarrow> liveServerMessage" where
  "outputMessage x =
     Some \<lparr>inputTranscription = None, outputTranscription = Some (Transcription (Some x)),
       turnComplete = False, groundingChunks = None, modelTurn = NoAudio,
       interrupted = False\<rparr>"

definition turnCompleteMessage :: liveServerMessage where
  "turnCompleteMessage =
     Some \<lparr>inputTranscription = None, outputTranscription = None, turnComplete = True,
       groundingChunks = None, modelTurn = NoAudio, interrupted = False\<rparr>"

text \<open>
  What the code guarantees of a recorded entry: a user entry has text left after
  trimming, a model entry has text.
\<close>

definition recordable :: "transcriptEntry \<Rightarrow> bool" where
  "recordable e =
     (case speaker e of User \<Rightarrow> trim (entryText e) \<noteq> [] | Model \<Rightarrow> entryText e \<noteq> [])"

text \<open>
  The text a message appends to the pending user and model texts, and the pending user
  text after the message has been taken in.
\<close>

definition fragment :: "transcription option \<Rightarrow> jsstring" where
  "fragment tr =
     (case tr of None \<Rightarrow> []
      | Some x \<Rightarrow> (case transcriptionText x of None \<Rightarrow> str ''undefined'' | Some y \<Rightarrow> y))"

definition inputFragment :: "liveServerMessage \<Rightarrow> jsstring" where
  "inputFragment m = fragment (case m of None \<Rightarrow> None | Some c \<Rightarrow> inputTranscription c)"

definition outputFragment :: "liveServerMessage \<Rightarrow> jsstring" where
  "outputFragment m = fragment (case m of None \<Rightarrow> None | Some c \<Rightarrow> outputTranscription c)"

definition pendingUser :: "liveServerMessage \<Rightarrow> turn \<Rightarrow> jsstring" where
  "pendingUser m t =
     (if (case m of None \<Rightarrow> None | Some c \<Rightarrow> outputTranscription c) \<noteq> None \<and> user t \<noteq> []
      then [] else user t) @ inputFragment m"

text \<open>
  The value of the module variable after a sequence of calls.
\<close>

fun chatAfter :: "chatCall list \<Rightarrow> chat option \<Rightarrow> chat option" where
  "chatAfter [] c = c"
| "chatAfter (StartChat useGrounding # calls) c = chatAfter calls (startChat useGrounding c)"
| "chatAfter (SendMessageToChat message # calls) c = chatAfter calls c"

fun isStartChat :: "chatCall \<Rightarrow> bool" where
  "isStartChat (StartChat useGrounding) = True"
| "isStartChat (SendMessageToChat message) = False"

text \<open>
  Concrete errors: the one \<^verbatim>\<open>sendMessageToChat\<close> throws, a 503 and a 500 of the API.
\<close>

definition notInitialized :: js_error where
  "notInitialized = JsError (str ''Error'') (str ''Chat not initialized. Call startChat first.'')"

definition unavailable :: js_error where
  "unavailable = JsError (str ''ApiError'') (str ''got status: 503 Service Unavailable'')"

definition internal :: js_error where
  "internal = JsError (str ''ApiError'') (str ''got status: 500 Internal Server Error'')"

section \<open>Evaluation on concrete inputs\<close>

text \<open>The equations that evaluate the content filter and the turn update.\<close>

lemmas eval_filter = filterProfanity_def SFW_PROFANITY_LIST_def str_def replace.simps
  matchAt_def isWordBoundary_def isWordChar_def canonicalize_def star_def

lemmas eval_turn = onmessage_setCurrentTurn_def appendText_def userEntry_def trim_def
  isWhiteSpace_def

lemma run_Cons: "run (e # es) s = run es (step e s)"
  by (simp add: run_def)

lemma run_Nil: "run [] s = s"
  by (simp add: run_def)

lemma run_append: "run (es @ es') s = run es' (run es s)"
  by (simp add: run_def)

section \<open>Frame encoder: truncation, wrap-around and round trip\<close>

lemma sint_toInt16: "sint (toInt16 x) = (trunc x + 32768) mod 65536 - 32768"
  unfolding toInt16_def
  by (simp add: signed_of_int signed_take_bit_eq_take_bit_shift take_bit_eq_mod)

lemma trunc_error: "\<bar>real_of_int (trunc x) - x\<bar> < 1"
  unfolding trunc_def by (auto; linarith)

lemma trunc_magnitude: "\<bar>real_of_int (trunc x)\<bar> \<le> \<bar>x\<bar>"
  unfolding trunc_def by (auto; linarith)

lemma trunc_range:
  assumes "-32768 \<le> y" and "y < 32768"
  shows "-32768 \<le> trunc y \<and> trunc y < 32768"
  using assms unfolding trunc_def by (auto; linarith)

lemma sint_toInt16_in_range:
  assumes "-1 \<le> x" and "x < 1"
  shows "sint (toInt16 (x * 32768)) = trunc (x * 32768)"
proof -
  have "-32768 \<le> x * 32768" and "x * 32768 < 32768"
    using assms by simp_all
  then have "-32768 \<le> trunc (x * 32768) \<and> trunc (x * 32768) < 32768"
    by (rule trunc_range)
  then show ?thesis
    by (simp add: sint_toInt16)
qed

lemma roundtrip_sample:
  assumes "-1 \<le> x" and "x < 1"
  shows "\<bar>real_of_int (sint (toInt16 (x * 32768))) / 32768 - x\<bar> < 1 / 32768"
proof -
  let ?t = "real_of_int (trunc (x * 32768))"
  have "\<bar>?t - x * 32768\<bar> < 1"
    by (rule trunc_error)
  moreover have "?t / 32768 - x = (?t - x * 32768) / 32768"
    by (simp add: field_simps)
  ultimately have "\<bar>?t / 32768 - x\<bar> < 1 / 32768"
    by (simp add: divide_strict_right_mono del: divide_less_eq_numeral1 less_divide_eq_numeral1)
  then show ?thesis
    using assms by (simp add: sint_toInt16_in_range)
qed

text \<open>
  Claim C5 (as amended). The frame encoder is a pure function of the captured block. It
  returns one 16-bit sample per input sample, whose signed value is \<open>sample * 32768\<close>
  truncated towards zero (not rounded) and wrapped modulo \<open>2 ^ 16\<close> into the signed
  16-bit range, with no clamping. For a sample in \<open>[-1, 1)\<close> nothing wraps: the value is
  the truncation itself, less than one unit from \<open>sample * 32768\<close> and never larger in
  magnitude.
\<close>

theorem C5_encoder_truncates_and_wraps:
  "length (onaudioprocess xs) = length xs \<and>
   map sint (onaudioprocess xs) =
     map (\<lambda>x. (trunc (x * 32768) + 32768) mod 65536 - 32768) xs \<and>
   (\<forall>x\<in>set xs. -1 \<le> x \<and> x < 1 \<longrightarrow>
      sint (toInt16 (x * 32768)) = trunc (x * 32768) \<and>
      \<bar>real_of_int (trunc (x * 32768)) - x * 32768\<bar> < 1 \<and>
      \<bar>real_of_int (trunc (x * 32768))\<bar> \<le> \<bar>x * 32768\<bar>)"
proof -
  have len: "length (onaudioprocess xs) = length xs"
    by (simp add: onaudioprocess_def)
  have wrap: "map sint (onaudioprocess xs) =
      map (\<lambda>x. (trunc (x * 32768) + 32768) mod 65536 - 32768) xs"
    by (simp add: onaudioprocess_def sint_toInt16)
  have inr: "\<forall>x\<in>set xs. -1 \<le> x \<and> x < 1 \<longrightarrow>
      sint (toInt16 (x * 32768)) = trunc (x * 32768) \<and>
      \<bar>real_of_int (trunc (x * 32768)) - x * 32768\<bar> < 1 \<and>
      \<bar>real_of_int (trunc (x * 32768))\<bar> \<le> \<bar>x * 32768\<bar>"
    using sint_toInt16_in_range trunc_error trunc_magnitude by blast
  from len wrap inr show ?thesis
    by blast
qed

text \<open>
  Witness for C5: out-of-range samples wrap, fractions are cut off towards zero.
\<close>

theorem C5_encoder_truncates_and_wraps_witness:
  "onaudioprocess [3/2, -1, -5/4, 1/2, 3/131072, -3/131072, 1] =
     [-16384, -32768, 24576, 16384, 0, 0, -32768] \<and>
   map sint (onaudioprocess [3/2, -5/4, 1/2]) = [-16384, 24576, 16384] \<and>
   sint (toInt16 (1/2 * 32768)) = trunc (1/2 * 32768)"
proof -
  have e: "onaudioprocess [3/2, -1, -5/4, 1/2, 3/131072, -3/131072, 1] =
     [-16384, -32768, 24576, 16384, 0, 0, -32768]"
    by (simp add: onaudioprocess_def toInt16_def trunc_def)
  have t: "trunc (3/2 * 32768) = 49152" "trunc (-5/4 * 32768) = -40960"
    "trunc (1/2 * 32768) = 16384"
    by (simp_all add: trunc_def)
  from C5_encoder_truncates_and_wraps [of "[3/2, -5/4, 1/2]"]
  have "map sint (onaudioprocess [3/2, -5/4, 1/2]) = [-16384, 24576, 16384]"
    and "sint (toInt16 (1/2 * 32768)) = trunc (1/2 * 32768)"
    using t by simp_all
  with e show ?thesis
    by simp
qed

text \<open>
  Counterexample for C5 as stated: \<open>3/131072 * 32768 = 0.75\<close> rounds to \<open>1\<close>, but the
  encoder stores \<open>0\<close>.
\<close>

theorem C5_round_counterexample:
  "onaudioprocess [3/131072] = [0] \<and> spec_round_encoder [3/131072] = [1] \<and>
   onaudioprocess [3/131072] \<noteq> spec_round_encoder [3/131072]"
  by (simp add: onaudioprocess_def toInt16_def trunc_def spec_round_encoder_def round_def)

text \<open>
  Claim C3 (as amended). For every block of samples in the half-open range \<open>[-1, 1)\<close>,
  encoding the block with the frame encoder and decoding the 16-bit frame again
  (dividing each 16-bit sample by \<open>32768\<close>) gives a buffer with one frame per sample, in
  which every sample differs from the original by less than one quantization step
  \<open>1 / 32768\<close>.
\<close>

theorem C3_roundtrip_half_open:
  assumes "\<forall>x\<in>set xs. -1 \<le> x \<and> x < 1"
  shows "length (channelData (decodeAudioData (onaudioprocess xs))) = length xs \<and>
         (\<forall>i<length xs.
            \<bar>channelData (decodeAudioData (onaudioprocess xs)) ! i - xs ! i\<bar> < 1 / 32768)"
proof (intro conjI allI impI)
  show "length (channelData (decodeAudioData (onaudioprocess xs))) = length xs"
    by (simp add: decodeAudioData_def onaudioprocess_def)
next
  fix i assume i: "i < length xs"
  then have "xs ! i \<in> set xs"
    by simp
  with assms have "-1 \<le> xs ! i" and "xs ! i < 1"
    by auto
  then have "\<bar>real_of_int (sint (toInt16 (xs ! i * 32768))) / 32768 - xs ! i\<bar> < 1 / 32768"
    by (rule roundtrip_sample)
  moreover have "channelData (decodeAudioData (onaudioprocess xs)) ! i =
      real_of_int (sint (toInt16 (xs ! i * 32768))) / 32768"
    using i by (simp add: decodeAudioData_def onaudioprocess_def)
  ultimately show "\<bar>channelData (decodeAudioData (onaudioprocess xs)) ! i - xs ! i\<bar> < 1 / 32768"
    by (simp only:)
qed

text \<open>
  Witness for C3: a block inside the half-open range, with its decoded frame.
\<close>

theorem C3_roundtrip_half_open_witness:
  "channelData (decodeAudioData (onaudioprocess [1/2, -1, 3/131072])) = [1/2, -1, 0] \<and>
   length (channelData (decodeAudioData (onaudioprocess [1/2, -1, 3/131072]))) = 3 \<and>
   \<bar>channelData (decodeAudioData (onaudioprocess [1/2, -1, 3/131072])) ! 2 - 3/131072\<bar>
     < 1 / 32768"
proof -
  let ?out = "channelData (decodeAudioData (onaudioprocess [1/2, -1, 3/131072]))"
  have h: "\<forall>x\<in>set [1/2, -1, 3/131072 :: real]. -1 \<le> x \<and> x < 1"
    by simp
  have e: "?out = [1/2, -1, 0]"
    by (simp add: decodeAudioData_def onaudioprocess_def toInt16_def trunc_def)
  have l: "length ?out = 3"
    using C3_roundtrip_half_open [OF h] by simp
  have r: "\<forall>i<length [1/2, -1, 3/131072 :: real].
      \<bar>?out ! i - [1/2, -1, 3/131072] ! i\<bar> < 1 / 32768"
    using C3_roundtrip_half_open [OF h] by (rule conjunct2)
  have "2 < length [1/2, -1, 3/131072 :: real]"
    by simp
  with r have "\<bar>?out ! 2 - [1/2, -1, 3/131072] ! 2\<bar> < 1 / 32768"
    by blast
  then have "\<bar>?out ! 2 - 3/131072\<bar> < 1 / 32768"
    by (simp only: nth_Cons_numeral nth_Cons_0 numeral_2_eq_2 nth_Cons_Suc)
  with e l show ?thesis
    by (simp only: simp_thms)
qed

text \<open>
  Counterexample for C3 as stated: the sample \<open>1.0\<close> lies in \<open>[-1, 1]\<close>, is encoded as
  \<open>32768\<close> wrapped to \<open>-32768\<close>, and decodes to \<open>-1.0\<close>, two units away.
\<close>

theorem C3_roundtrip_counterexample:
  "(-1::real) \<le> 1 \<and> (1::real) \<le> 1 \<and>
   onaudioprocess [1] = [-32768] \<and>
   channelData (decodeAudioData (onaudioprocess [1])) = [-1] \<and>
   \<not> \<bar>channelData (decodeAudioData (onaudioprocess [1])) ! 0 - [1] ! 0\<bar> \<le> 1 / 32768"
  by (simp add: decodeAudioData_def onaudioprocess_def toInt16_def trunc_def)

section \<open>Playback: stop, pause and scheduling\<close>

subsection \<open>Stop and flush\<close>

lemma handleStopPlayback_fields:
  "sourcesRef (handleStopPlayback s) = []"
  "nextStartTimeRef (handleStopPlayback s) = 0"
  "halted (handleStopPlayback s) = halted s @ sourcesRef s"
  "isPaused (handleStopPlayback s) = False"
  "ctxState (handleStopPlayback s) = (if ctxState s = Closed then Closed else Running)"
  "currentTime (handleStopPlayback s) = currentTime s"
  "playbackRateRef (handleStopPlayback s) = playbackRateRef s"
  "currentTurn (handleStopPlayback s) = currentTurn s"
  "transcript (handleStopPlayback s) = transcript s"
  by (cases "ctxState s"; simp add: handleStopPlayback_def Let_def)+

lemma onmessage_audio_fields:
  "sourcesRef (onmessage_audio d s) =
     sourcesRef s @ [\<lparr>buffer = decodeAudioData d, sourceRate = playbackRateRef s,
        startTime = max (nextStartTimeRef s) (currentTime s)\<rparr>]"
  "nextStartTimeRef (onmessage_audio d s) =
     max (nextStartTimeRef s) (currentTime s) + duration (decodeAudioData d) / playbackRateRef s"
  "playbackRateRef (onmessage_audio d s) = playbackRateRef s"
  "currentTime (onmessage_audio d s) = currentTime s"
  "ctxState (onmessage_audio d s) = ctxState s"
  "halted (onmessage_audio d s) = halted s"
  "isPaused (onmessage_audio d s) = isPaused s"
  "currentTurn (onmessage_audio d s) = currentTurn s"
  "transcript (onmessage_audio d s) = transcript s"
  by (simp_all add: onmessage_audio_def Let_def)

lemma duration_decodeAudioData: "duration (decodeAudioData d) = real (length d) / 24000"
  by (simp add: duration_def decodeAudioData_def)

text \<open>
  Claim C9. After \<^verbatim>\<open>handleStopPlayback\<close> the paused flag is cleared, whatever the state
  before. If the output context was suspended it is resumed, and a running context
  stays running; in particular a stop after a pause (\<^verbatim>\<open>handlePauseResume\<close> on a running
  context, which suspends it and sets the flag) leaves the session un-paused with its
  clock running. The promise of \<^verbatim>\<open>resume()\<close> is taken as fulfilled within the step.
\<close>

theorem C9_stop_unpauses:
  "isPaused (handleStopPlayback s) = False \<and>
   (ctxState s = Suspended \<longrightarrow> ctxState (handleStopPlayback s) = Running) \<and>
   (ctxState s = Running \<longrightarrow> ctxState (handleStopPlayback s) = Running) \<and>
   isPaused (handleStopPlayback (handlePauseResume s)) = False \<and>
   (ctxState s = Running \<longrightarrow>
      ctxState (handlePauseResume s) = Suspended \<and> isPaused (handlePauseResume s) \<and>
      ctxState (handleStopPlayback (handlePauseResume s)) = Running)"
  by (simp add: handleStopPlayback_fields) (simp add: handlePauseResume_def)

text \<open>
  Witness for C9: pause, then stop.
\<close>

theorem C9_stop_unpauses_witness:
  "ctxState (handlePauseResume initialSession) = Suspended \<and>
   isPaused (handlePauseResume initialSession) = True \<and>
   ctxState (handleStopPlayback (handlePauseResume initialSession)) = Running \<and>
   isPaused (handleStopPlayback (handlePauseResume initialSession)) = False"
  using C9_stop_unpauses [of initialSession]
  by (simp add: initialSession_def)

subsection \<open>Scheduling invariant\<close>

lemma duration_nonneg: "0 \<le> duration (decodeAudioData d)"
  by (simp add: duration_decodeAudioData)

lemma scheduled_onmessage_audio:
  assumes "scheduled s" and "0 < playbackRateRef s"
  shows "scheduled (onmessage_audio d s)"
proof -
  let ?start = "max (nextStartTimeRef s) (currentTime s)"
  let ?len = "duration (decodeAudioData d) / playbackRateRef s"
  have len: "0 \<le> ?len"
    using assms(2) duration_nonneg [of d] by simp
  have old: "\<forall>x\<in>set (sourcesRef s). startTime x \<le> ?start \<and>
      startTime x + duration (buffer x) / sourceRate x \<le> ?start"
    using assms(1) by (auto simp: scheduled_def)
  show ?thesis
    unfolding scheduled_def onmessage_audio_fields
    using assms(1) old len
    by (auto simp: scheduled_def sorted_wrt_append noOverlap_def)
qed

lemma onmessage_playback:
  "playbackRateRef (onmessage m s) = playbackRateRef s"
  "currentTime (onmessage m s) = currentTime s"
  by (auto simp: onmessage_def onmessage_interrupted_def handleStopPlayback_fields
      onmessage_audio_fields Let_def split: prod.splits audioPart.splits option.splits)

lemma onmessage_submission:
  assumes "payload (ServerMessage m) = Some d"
  shows "sourcesRef (onmessage m s) = sourcesRef (onmessage_audio d s)"
    and "nextStartTimeRef (onmessage m s) = nextStartTimeRef (onmessage_audio d s)"
  using assms
  by (cases m; auto simp: onmessage_def onmessage_interrupted_def onmessage_audio_fields
      Let_def split: prod.splits audioPart.splits if_splits)+

lemma scheduled_cong:
  assumes "sourcesRef s' = sourcesRef s" and "nextStartTimeRef s' = nextStartTimeRef s"
  shows "scheduled s' = scheduled s"
  by (simp add: scheduled_def assms)

lemma step_submits:
  assumes "submits e" and "scheduled s" and "0 < playbackRateRef s"
  shows "scheduled (step e s) \<and> playbackRateRef (step e s) = playbackRateRef s \<and>
         map buffer (sourcesRef (step e s)) =
           map buffer (sourcesRef s) @ map decodeAudioData (case payload e of None \<Rightarrow> [] | Some d \<Rightarrow> [d])"
proof (cases e)
  case (Tick dt)
  then show ?thesis
    using assms by (simp add: scheduled_def)
next
  case (ServerMessage m)
  with assms(1) obtain d where d: "payload (ServerMessage m) = Some d"
    by auto
  have "scheduled (onmessage m s) = scheduled (onmessage_audio d s)"
    by (rule scheduled_cong) (simp_all add: onmessage_submission [OF d])
  then show ?thesis
    using ServerMessage d assms scheduled_onmessage_audio [of s d]
    by (simp add: onmessage_playback onmessage_submission [OF d] onmessage_audio_fields)
qed (use assms in simp_all)

lemma run_submits:
  assumes "\<forall>e\<in>set events. submits e" and "scheduled s" and "0 < playbackRateRef s"
  shows "scheduled (run events s) \<and>
         map buffer (sourcesRef (run events s)) =
           map buffer (sourcesRef s) @ map decodeAudioData (payloads events)"
  using assms
proof (induction events arbitrary: s)
  case Nil
  then show ?case by (simp add: run_def)
next
  case (Cons e es)
  from Cons.prems have e: "submits e" and es: "\<forall>x\<in>set es. submits x"
    by simp_all
  note st = step_submits [OF e Cons.prems(2) Cons.prems(3)]
  from st have "scheduled (step e s)" and "0 < playbackRateRef (step e s)"
    using Cons.prems(3) by simp_all
  from Cons.IH [OF es this] st show ?case
    by (simp add: run_def)
qed

lemma scheduled_stop: "scheduled (handleStopPlayback s)"
  by (simp add: scheduled_def handleStopPlayback_fields)

lemma scheduled_later:
  assumes "scheduled s" and "nextStartTimeRef s \<le> n"
  shows "scheduled (s\<lparr>nextStartTimeRef := n\<rparr>)"
  using assms by (fastforce simp: scheduled_def)

lemma scheduled_removeAll:
  assumes "scheduled s"
  shows "scheduled (s\<lparr>sourcesRef := removeAll x (sourcesRef s)\<rparr>)"
proof -
  have "sorted_wrt noOverlap (filter ((\<noteq>) x) (sourcesRef s))"
    using assms by (intro sorted_wrt_filter) (simp add: scheduled_def)
  then show ?thesis
    using assms by (simp add: scheduled_def removeAll_filter_not_eq)
qed

text \<open>
  A property of the session is kept by a message when it is kept by the parts of the
  handler: the turn update, the advance of the next start time, the scheduling of a
  chunk, and the stop.
\<close>

lemma onmessage_preserves:
  assumes "P s"
    and turn: "\<And>t a b. P t \<Longrightarrow> P (t\<lparr>currentTurn := a, transcript := b\<rparr>)"
    and bump: "\<And>t. P t \<Longrightarrow> P (t\<lparr>nextStartTimeRef := max (nextStartTimeRef t) (currentTime t)\<rparr>)"
    and audio: "\<And>t d. P t \<Longrightarrow> P (onmessage_audio d t)"
    and stop: "\<And>t. P t \<Longrightarrow> P (handleStopPlayback t)"
  shows "P (onmessage m s)"
proof -
  obtain newTurn updates where u: "onmessage_setCurrentTurn m (currentTurn s) = (newTurn, updates)"
    by (cases "onmessage_setCurrentTurn m (currentTurn s)")
  define s1 where "s1 = s\<lparr>currentTurn := newTurn, transcript := transcript s @ updates\<rparr>"
  have s1: "P s1"
    unfolding s1_def by (rule turn [OF assms(1)])
  have i: "P (onmessage_interrupted m t)" if "P t" for t
    using that stop by (simp add: onmessage_interrupted_def)
  have "onmessage m s =
     (case (case m of None \<Rightarrow> NoAudio | Some c \<Rightarrow> modelTurn c) of
        NoAudio \<Rightarrow> onmessage_interrupted m s1
      | BadPart \<Rightarrow> s1
      | BadData \<Rightarrow> s1\<lparr>nextStartTimeRef := max (nextStartTimeRef s1) (currentTime s1)\<rparr>
      | InlineAudio d \<Rightarrow>
          if d = [] then onmessage_interrupted m s1
          else onmessage_interrupted m (onmessage_audio d s1))"
    unfolding onmessage_def u s1_def Let_def by (simp split: audioPart.split option.split)
  then show ?thesis
    using s1 i audio bump by (simp split: audioPart.split)
qed

lemma scheduled_onmessage:
  assumes "scheduled s" and "0 < playbackRateRef s"
  shows "scheduled (onmessage m s)"
proof -
  have "scheduled (onmessage m s) \<and> 0 < playbackRateRef (onmessage m s)"
  proof (rule onmessage_preserves [where P = "\<lambda>t. scheduled t \<and> 0 < playbackRateRef t"])
    show "scheduled s \<and> 0 < playbackRateRef s"
      using assms by simp
  next
    fix t a b assume "scheduled t \<and> 0 < playbackRateRef t"
    then show "scheduled (t\<lparr>currentTurn := a, transcript := b\<rparr>) \<and>
        0 < playbackRateRef (t\<lparr>currentTurn := a, transcript := b\<rparr>)"
      by (simp add: scheduled_def)
  next
    fix t assume t: "scheduled t \<and> 0 < playbackRateRef t"
    then have "scheduled (t\<lparr>nextStartTimeRef := max (nextStartTimeRef t) (currentTime t)\<rparr>)"
      by (intro scheduled_later) simp_all
    with t show "scheduled (t\<lparr>nextStartTimeRef := max (nextStartTimeRef t) (currentTime t)\<rparr>) \<and>
        0 < playbackRateRef (t\<lparr>nextStartTimeRef := max (nextStartTimeRef t) (currentTime t)\<rparr>)"
      by simp
  next
    fix t d assume "scheduled t \<and> 0 < playbackRateRef t"
    then show "scheduled (onmessage_audio d t) \<and> 0 < playbackRateRef (onmessage_audio d t)"
      by (simp add: scheduled_onmessage_audio onmessage_audio_fields)
  next
    fix t assume "scheduled t \<and> 0 < playbackRateRef t"
    then show "scheduled (handleStopPlayback t) \<and> 0 < playbackRateRef (handleStopPlayback t)"
      by (simp add: scheduled_stop handleStopPlayback_fields)
  qed
  then show ?thesis
    by simp
qed

lemma scheduled_step:
  assumes "keepsRate e" and "scheduled s" and "0 < playbackRateRef s"
  shows "scheduled (step e s) \<and> playbackRateRef (step e s) = playbackRateRef s"
proof (cases e)
  case (Tick dt)
  then show ?thesis
    using assms by (simp add: scheduled_def)
next
  case (ServerMessage m)
  then show ?thesis
    using assms scheduled_onmessage by (simp add: onmessage_playback)
next
  case StopClick
  then show ?thesis
    by (simp add: scheduled_stop handleStopPlayback_fields)
next
  case PauseResumeClick
  then show ?thesis
    using assms by (simp add: handlePauseResume_def scheduled_def)
next
  case (RateChange r)
  with assms(1) show ?thesis
    by simp
next
  case (SourceEnded x)
  then show ?thesis
    using scheduled_removeAll [OF assms(2), of x] by (simp add: onended_def)
qed

lemma scheduled_run:
  assumes "\<forall>e\<in>set events. keepsRate e" and "scheduled s" and "0 < playbackRateRef s"
  shows "scheduled (run events s) \<and> playbackRateRef (run events s) = playbackRateRef s"
  using assms
proof (induction events arbitrary: s)
  case Nil
  then show ?case by (simp add: run_Nil)
next
  case (Cons e es)
  from Cons.prems have e: "keepsRate e" and es: "\<forall>x\<in>set es. keepsRate x"
    by simp_all
  note st = scheduled_step [OF e Cons.prems(2) Cons.prems(3)]
  then have "scheduled (step e s)" and "0 < playbackRateRef (step e s)"
    using Cons.prems(3) by simp_all
  from Cons.IH [OF es this] st show ?case
    by (simp add: run_Cons)
qed

lemma uniform_onmessage:
  assumes "uniform s"
  shows "uniform (onmessage m s)"
  using assms
  by (rule onmessage_preserves)
    (simp_all add: uniform_def onmessage_audio_fields handleStopPlayback_fields duration_nonneg)

lemma uniform_step:
  assumes "keepsRate e" and "uniform s"
  shows "uniform (step e s)"
proof (cases e)
  case (ServerMessage m)
  then show ?thesis
    using assms uniform_onmessage by simp
next
  case (RateChange r)
  with assms(1) show ?thesis
    by simp
qed (use assms in \<open>auto simp: uniform_def handleStopPlayback_fields handlePauseResume_def onended_def\<close>)

lemma uniform_run:
  assumes "\<forall>e\<in>set events. keepsRate e" and "uniform s"
  shows "uniform (run events s)"
  using assms
proof (induction events arbitrary: s)
  case Nil
  then show ?case by (simp add: run_Nil)
next
  case (Cons e es)
  from Cons.prems have e: "keepsRate e" and es: "\<forall>x\<in>set es. keepsRate x"
    by simp_all
  from Cons.IH [OF es uniform_step [OF e Cons.prems(2)]] show ?case
    by (simp add: run_Cons)
qed

lemma submits_keepsRate: "submits e \<Longrightarrow> keepsRate e"
  by (cases e) simp_all

text \<open>
  Claim C1 (as amended). Starting with an empty set of sources and a positive playback
  rate, after any sequence of events that does not change the rate (clock ticks, server
  messages of any kind, stop, pause and resume, sources that end) the scheduled sources
  do not overlap: an earlier one starts no later than a later one and has ended, at the
  playback rate in effect (\<open>start + duration / rate\<close>), when the later one starts. Each
  source carries the rate in effect. When the events are clock ticks and audio chunks
  only, the sources are the decoded chunks in arrival order. At a rate of at most \<open>1\<close>
  the same holds of \<open>start + duration\<close> with the unscaled duration.
\<close>

theorem C1_no_overlap:
  assumes "\<forall>e\<in>set events. keepsRate e"
    and "sourcesRef s = []"
    and "0 < playbackRateRef s"
  shows "sorted_wrt noOverlap (sourcesRef (run events s)) \<and>
         (\<forall>x\<in>set (sourcesRef (run events s)). sourceRate x = playbackRateRef s) \<and>
         ((\<forall>e\<in>set events. submits e) \<longrightarrow>
            map buffer (sourcesRef (run events s)) = map decodeAudioData (payloads events)) \<and>
         (playbackRateRef s \<le> 1 \<longrightarrow>
            sorted_wrt (\<lambda>a b. startTime a + duration (buffer a) \<le> startTime b)
              (sourcesRef (run events s)))"
proof -
  let ?xs = "sourcesRef (run events s)"
  have sch: "scheduled s" and uni: "uniform s"
    using assms(2) by (simp_all add: scheduled_def uniform_def)
  from scheduled_run [OF assms(1) sch assms(3)]
  have sorted: "sorted_wrt noOverlap ?xs" and rate: "playbackRateRef (run events s) = playbackRateRef s"
    by (simp_all add: scheduled_def)
  from uniform_run [OF assms(1) uni] rate
  have rates: "\<forall>x\<in>set ?xs. sourceRate x = playbackRateRef s"
    and nonneg: "\<forall>x\<in>set ?xs. 0 \<le> duration (buffer x)"
    by (simp_all add: uniform_def)
  have bufs: "map buffer ?xs = map decodeAudioData (payloads events)"
    if "\<forall>e\<in>set events. submits e"
    using run_submits [OF that sch assms(3)] assms(2) by simp
  have literal: "sorted_wrt (\<lambda>a b. startTime a + duration (buffer a) \<le> startTime b) ?xs"
    if slow: "playbackRateRef s \<le> 1"
  proof (rule sorted_wrt_mono_rel [OF _ sorted])
    fix a b assume a: "a \<in> set ?xs" and ab: "noOverlap a b"
    from a rates have r: "sourceRate a = playbackRateRef s"
      by simp
    have "duration (buffer a) * playbackRateRef s \<le> duration (buffer a) * 1"
      using nonneg a slow by (intro mult_left_mono) simp_all
    then have "duration (buffer a) \<le> duration (buffer a) / playbackRateRef s"
      using assms(3) by (simp add: field_simps)
    with ab r show "startTime a + duration (buffer a) \<le> startTime b"
      by (simp add: noOverlap_def)
  qed
  from sorted rates bufs literal show ?thesis
    by blast
qed

text \<open>
  Witness for C1: buffers of 1.0 s, 0.5 s and 2.0 s arriving at clock readings 1, 1 and
  1.25 start at 1, 2 and 2.5.
\<close>

theorem C1_no_overlap_witness:
  "map startTime (sourcesRef (run
      [Tick 1, audioMessage (replicate 24000 0), audioMessage (replicate 12000 0), Tick (1/4),
       audioMessage (replicate 48000 0)] initialSession)) = [1, 2, 5/2] \<and>
   sorted_wrt noOverlap (sourcesRef (run
      [Tick 1, audioMessage (replicate 24000 0), audioMessage (replicate 12000 0), Tick (1/4),
       audioMessage (replicate 48000 0)] initialSession))"
proof -
  let ?events = "[Tick 1, audioMessage (replicate 24000 0), audioMessage (replicate 12000 0),
    Tick (1/4), audioMessage (replicate 48000 0)]"
  have h1: "\<forall>e\<in>set ?events. keepsRate e"
    by (simp add: audioMessage_def)
  have h2: "sourcesRef initialSession = []" and h3: "0 < playbackRateRef initialSession"
    by (simp_all add: initialSession_def)
  have m: "onmessage_setCurrentTurn (Some \<lparr>inputTranscription = None, outputTranscription = None,
       turnComplete = False, groundingChunks = None, modelTurn = InlineAudio d,
       interrupted = False\<rparr>) t = (t, [])" for d t
    by (simp add: onmessage_setCurrentTurn_def)
  have "map startTime (sourcesRef (run ?events initialSession)) = [1, 2, 5/2]"
    by (simp add: run_Cons run_Nil audioMessage_def initialSession_def onmessage_def m
        onmessage_interrupted_def onmessage_audio_def duration_decodeAudioData Let_def)
  with C1_no_overlap [OF h1 h2 h3] show ?thesis
    by simp
qed

text \<open>
  Counterexample for C1 as stated: at rate 2 two chunks of 375 samples, 1/64 s each,
  arrive at clock reading 0. They start at 0 and 1/128, and the start of the first plus
  its duration, 1/64, lies behind the start of the second.
\<close>

theorem C1_raw_duration_counterexample:
  "sourcesRef (setPlaybackRate 2 initialSession) = [] \<and>
   playbackRateRef (setPlaybackRate 2 initialSession) = 2 \<and>
   map startTime (sourcesRef (run [audioMessage (replicate 375 0), audioMessage (replicate 375 0)]
      (setPlaybackRate 2 initialSession))) = [0, 1 / 128] \<and>
   map (\<lambda>x. duration (buffer x))
     (sourcesRef (run [audioMessage (replicate 375 0), audioMessage (replicate 375 0)]
        (setPlaybackRate 2 initialSession))) = [1 / 64, 1 / 64] \<and>
   \<not> startTime (sourcesRef (run [audioMessage (replicate 375 0), audioMessage (replicate 375 0)]
        (setPlaybackRate 2 initialSession)) ! 0)
      + duration (buffer (sourcesRef (run [audioMessage (replicate 375 0),
          audioMessage (replicate 375 0)] (setPlaybackRate 2 initialSession)) ! 0))
      \<le> startTime (sourcesRef (run [audioMessage (replicate 375 0), audioMessage (replicate 375 0)]
        (setPlaybackRate 2 initialSession)) ! 1)"
proof -
  have m: "onmessage_setCurrentTurn (Some \<lparr>inputTranscription = None, outputTranscription = None,
       turnComplete = False, groundingChunks = None, modelTurn = InlineAudio d,
       interrupted = False\<rparr>) t = (t, [])" for d t
    by (simp add: onmessage_setCurrentTurn_def)
  show ?thesis
    by (simp add: run_Cons run_Nil audioMessage_def initialSession_def setPlaybackRate_def
        onmessage_def m onmessage_interrupted_def onmessage_audio_def duration_decodeAudioData
        Let_def)
qed

lemma run_ticks:
  assumes "0 \<le> currentTime s"
  shows "currentTime s \<le> currentTime (run (map Tick dts) s) \<and>
         sourcesRef (run (map Tick dts) s) = sourcesRef s \<and>
         nextStartTimeRef (run (map Tick dts) s) = nextStartTimeRef s \<and>
         playbackRateRef (run (map Tick dts) s) = playbackRateRef s"
  using assms
proof (induction dts arbitrary: s)
  case Nil
  then show ?case by (simp add: run_Nil)
next
  case (Cons dt dts)
  have "currentTime s \<le> currentTime (step (Tick dt) s)"
    by simp
  moreover from this Cons.prems have "0 \<le> currentTime (step (Tick dt) s)"
    by linarith
  from Cons.IH [OF this] have "currentTime (step (Tick dt) s) \<le> currentTime (run (map Tick dts) (step (Tick dt) s))"
    and "sourcesRef (run (map Tick dts) (step (Tick dt) s)) = sourcesRef s"
    and "nextStartTimeRef (run (map Tick dts) (step (Tick dt) s)) = nextStartTimeRef s"
    and "playbackRateRef (run (map Tick dts) (step (Tick dt) s)) = playbackRateRef s"
    by simp_all
  ultimately show ?case
    by (simp add: run_Cons)
qed

lemma onmessage_flush:
  assumes "interrupted c" and "modelTurn c = NoAudio \<or> modelTurn c = InlineAudio d"
  shows "sourcesRef (onmessage (Some c) s) = []"
    and "nextStartTimeRef (onmessage (Some c) s) = 0"
    and "set (sourcesRef s) \<subseteq> set (halted (onmessage (Some c) s))"
  using assms
  by (auto simp: onmessage_def onmessage_interrupted_def handleStopPlayback_fields
      onmessage_audio_fields Let_def split: prod.splits)

subsection \<open>After a stop\<close>

lemma notBefore_onmessage:
  assumes "notBefore t s"
  shows "notBefore t (onmessage m s)"
  using assms
  by (rule onmessage_preserves)
    (auto simp: notBefore_def onmessage_audio_fields handleStopPlayback_fields)

lemma notBefore_step:
  assumes "notBefore t s"
  shows "notBefore t (step e s)"
proof (cases e)
  case (ServerMessage m)
  then show ?thesis
    using assms notBefore_onmessage by simp
qed (use assms in \<open>auto simp: notBefore_def handleStopPlayback_fields handlePauseResume_def
    setPlaybackRate_def onended_def\<close>)

lemma notBefore_run:
  assumes "notBefore t s"
  shows "notBefore t (run events s)"
  using assms
proof (induction events arbitrary: s)
  case Nil
  then show ?case by (simp add: run_Nil)
next
  case (Cons e es)
  from Cons.IH [OF notBefore_step [OF Cons.prems]] show ?case
    by (simp add: run_Cons)
qed

text \<open>
  Claim C4 (as amended). \<^verbatim>\<open>handleStopPlayback\<close>, which the Stop button runs, calls
  \<^verbatim>\<open>stop()\<close> on every source of the set, empties the set and resets the next start time
  to \<open>0\<close>, whatever the next start time was before; a message with the interrupted flag
  (with no audio part or with one that decodes) does the same. After any sequence of
  events that follows, the clock is at or after the stop time and every source of the
  set starts at or after the stop time. With a clock that is not negative, the first
  audio chunk after clock ticks alone starts at the clock reading of its arrival.
\<close>

theorem C4_stop_flush:
  assumes "0 \<le> currentTime s" and "payload e = Some d"
  shows "sourcesRef (handleStopPlayback s) = [] \<and>
         halted (handleStopPlayback s) = halted s @ sourcesRef s \<and>
         nextStartTimeRef (handleStopPlayback s) = 0 \<and>
         step StopClick s = handleStopPlayback s \<and>
         handleStopPlayback (s\<lparr>nextStartTimeRef := n\<rparr>) = handleStopPlayback s \<and>
         (interrupted c \<and> (modelTurn c = NoAudio \<or> modelTurn c = InlineAudio d') \<longrightarrow>
            sourcesRef (onmessage (Some c) s) = [] \<and>
            nextStartTimeRef (onmessage (Some c) s) = 0 \<and>
            set (sourcesRef s) \<subseteq> set (halted (onmessage (Some c) s))) \<and>
         currentTime s \<le> currentTime (run events (handleStopPlayback s)) \<and>
         (\<forall>x\<in>set (sourcesRef (run events (handleStopPlayback s))). currentTime s \<le> startTime x) \<and>
         sourcesRef (run (map Tick dts @ [e]) (handleStopPlayback s)) =
           [\<lparr>buffer = decodeAudioData d, sourceRate = playbackRateRef s,
             startTime = currentTime (run (map Tick dts) (handleStopPlayback s))\<rparr>]"
proof -
  let ?s1 = "handleStopPlayback s"
  let ?s2 = "run (map Tick dts) ?s1"
  have indep: "handleStopPlayback (s\<lparr>nextStartTimeRef := n\<rparr>) = handleStopPlayback s"
    by (simp add: handleStopPlayback_def Let_def)
  have "notBefore (currentTime s) ?s1"
    by (simp add: notBefore_def handleStopPlayback_fields)
  then have "notBefore (currentTime s) (run events ?s1)"
    by (rule notBefore_run)
  then have later: "currentTime s \<le> currentTime (run events ?s1)"
    and starts: "\<forall>x\<in>set (sourcesRef (run events ?s1)). currentTime s \<le> startTime x"
    by (simp_all add: notBefore_def)
  have "0 \<le> currentTime ?s1"
    using assms(1) by (simp add: handleStopPlayback_fields)
  from run_ticks [OF this, of dts]
  have t: "currentTime s \<le> currentTime ?s2" and src: "sourcesRef ?s2 = []"
    and nxt: "nextStartTimeRef ?s2 = 0" and rate: "playbackRateRef ?s2 = playbackRateRef s"
    by (simp_all add: handleStopPlayback_fields)
  from assms(2) obtain m where e: "e = ServerMessage m"
    by (cases e) simp_all
  from t assms(1) have "max 0 (currentTime ?s2) = currentTime ?s2"
    by simp
  then have first: "sourcesRef (run (map Tick dts @ [e]) ?s1) =
      [\<lparr>buffer = decodeAudioData d, sourceRate = playbackRateRef s, startTime = currentTime ?s2\<rparr>]"
    using assms(2) src nxt rate
    by (simp add: run_append run_Cons run_Nil e onmessage_submission onmessage_audio_fields)
  have flush: "interrupted c \<and> (modelTurn c = NoAudio \<or> modelTurn c = InlineAudio d') \<longrightarrow>
      sourcesRef (onmessage (Some c) s) = [] \<and>
      nextStartTimeRef (onmessage (Some c) s) = 0 \<and>
      set (sourcesRef s) \<subseteq> set (halted (onmessage (Some c) s))"
    using onmessage_flush [of c d' s] by blast
  have stop: "sourcesRef ?s1 = []" "halted ?s1 = halted s @ sourcesRef s"
    "nextStartTimeRef ?s1 = 0" "step StopClick s = ?s1"
    by (simp_all add: handleStopPlayback_fields)
  from stop indep flush later starts first show ?thesis
    by blast
qed

text \<open>
  Witness for C4: a chunk scheduled at 5, a stop at 5; a chunk two seconds later starts
  at 7; two chunks arriving at 5 and 5 + 1/256 start at 5 and 5 + 1/64.
\<close>

theorem C4_stop_flush_witness:
  "nextStartTimeRef (run [Tick 5, audioMessage [0, 0, 0]] initialSession) = 5 + 1 / 8000 \<and>
   sourcesRef (handleStopPlayback (run [Tick 5, audioMessage [0, 0, 0]] initialSession)) = [] \<and>
   nextStartTimeRef (handleStopPlayback (run [Tick 5, audioMessage [0, 0, 0]] initialSession)) = 0 \<and>
   sourcesRef (run (map Tick [2] @ [audioMessage [1]])
       (handleStopPlayback (run [Tick 5, audioMessage [0, 0, 0]] initialSession))) =
     [\<lparr>buffer = decodeAudioData [1], sourceRate = 1, startTime = 7\<rparr>] \<and>
   map startTime (sourcesRef (run [audioMessage (replicate 375 0), Tick (1/256),
       audioMessage (replicate 375 0)]
       (handleStopPlayback (run [Tick 5, audioMessage [0, 0, 0]] initialSession)))) =
     [5, 5 + 1 / 64] \<and>
   currentTime (run [Tick 5, audioMessage [0, 0, 0]] initialSession) \<le> 5 + 1 / 64"
proof -
  let ?s = "run [Tick 5, audioMessage [0, 0, 0]] initialSession"
  let ?events = "[audioMessage (replicate 375 0), Tick (1/256), audioMessage (replicate 375 0)]"
  have m: "onmessage_setCurrentTurn (Some \<lparr>inputTranscription = None, outputTranscription = None,
       turnComplete = False, groundingChunks = None, modelTurn = InlineAudio d,
       interrupted = False\<rparr>) t = (t, [])" for d t
    by (simp add: onmessage_setCurrentTurn_def)
  have s: "?s = initialSession\<lparr>currentTime := 5, nextStartTimeRef := 5 + 1 / 8000,
      sourcesRef := [\<lparr>buffer = decodeAudioData [0, 0, 0], sourceRate = 1, startTime = 5\<rparr>]\<rparr>"
    by (simp add: run_Cons run_Nil audioMessage_def initialSession_def onmessage_def m
        onmessage_interrupted_def onmessage_audio_def duration_decodeAudioData Let_def)
  have h1: "0 \<le> currentTime ?s"
    unfolding s by (simp add: initialSession_def)
  have h2: "payload (audioMessage [1]) = Some [1]"
    by (simp add: audioMessage_def)
  have t: "currentTime (run (map Tick [2]) (handleStopPlayback ?s)) = 7"
    unfolding s by (simp add: run_Cons run_Nil handleStopPlayback_def initialSession_def)
  have r: "playbackRateRef ?s = 1"
    unfolding s by (simp add: initialSession_def)
  have n: "nextStartTimeRef ?s = 5 + 1 / 8000"
    unfolding s by simp
  have two: "map startTime (sourcesRef (run ?events (handleStopPlayback ?s))) = [5, 5 + 1 / 64]"
    unfolding s
    by (simp add: run_Cons run_Nil audioMessage_def initialSession_def onmessage_def m
        onmessage_interrupted_def onmessage_audio_def handleStopPlayback_def
        duration_decodeAudioData Let_def)
  note c4 = C4_stop_flush [OF h1 h2, of _ _ _ ?events "[2]"]
  from c4 have "sourcesRef (handleStopPlayback ?s) = []"
    and "nextStartTimeRef (handleStopPlayback ?s) = 0"
    and "sourcesRef (run (map Tick [2] @ [audioMessage [1]]) (handleStopPlayback ?s)) =
      [\<lparr>buffer = decodeAudioData [1], sourceRate = 1, startTime = 7\<rparr>]"
    unfolding t r by blast+
  moreover from c4
  have all: "\<forall>x\<in>set (sourcesRef (run ?events (handleStopPlayback ?s))). currentTime ?s \<le> startTime x"
    by blast
  have "5 + 1 / 64 \<in> startTime ` set (sourcesRef (run ?events (handleStopPlayback ?s)))"
    using two by (metis list.set_intros(1,2) set_map)
  with all have "currentTime ?s \<le> 5 + 1 / 64"
    by auto
  ultimately show ?thesis
    using n two by (simp only: simp_thms)
qed

text \<open>
  Counterexample for C4 as stated: a stop at clock reading 5 leaves the next start
  time at 0, not at the clock reading.
\<close>

theorem C4_reset_counterexample:
  "currentTime (run [Tick 5, audioMessage [0, 0, 0], StopClick] initialSession) = 5 \<and>
   nextStartTimeRef (run [Tick 5, audioMessage [0, 0, 0], StopClick] initialSession) = 0 \<and>
   nextStartTimeRef (run [Tick 5, audioMessage [0, 0, 0], StopClick] initialSession) \<noteq>
     currentTime (run [Tick 5, audioMessage [0, 0, 0], StopClick] initialSession)"
proof -
  have m: "onmessage_setCurrentTurn (Some \<lparr>inputTranscription = None, outputTranscription = None,
       turnComplete = False, groundingChunks = None, modelTurn = InlineAudio d,
       interrupted = False\<rparr>) t = (t, [])" for d t
    by (simp add: onmessage_setCurrentTurn_def)
  show ?thesis
    by (simp add: run_Cons run_Nil audioMessage_def initialSession_def onmessage_def m
        onmessage_interrupted_def onmessage_audio_def handleStopPlayback_def Let_def)
qed

lemma onmessage_text:
  "currentTurn (onmessage m s) = fst (onmessage_setCurrentTurn m (currentTurn s))"
  "transcript (onmessage m s) = transcript s @ snd (onmessage_setCurrentTurn m (currentTurn s))"
  by (auto simp: onmessage_def onmessage_interrupted_def handleStopPlayback_fields
      onmessage_audio_fields Let_def split: prod.splits audioPart.splits option.splits)

lemma setCurrentTurn_interrupted_flag:
  "onmessage_setCurrentTurn (Some (c\<lparr>interrupted := b\<rparr>)) t = onmessage_setCurrentTurn (Some c) t"
  by (simp add: onmessage_setCurrentTurn_def)

text \<open>
  Claim C7. A message that only carries the interrupted flag acts on the session exactly
  as \<^verbatim>\<open>handleStopPlayback\<close> does, and leaves the pending turn (user text, model text,
  sources) and the transcript as they were. For a message with any other content, the
  pending turn and the transcript after it do not depend on the interrupted flag.
\<close>

theorem C7_interrupted_keeps_text:
  "onmessage interruptedMessage s = handleStopPlayback s \<and>
   currentTurn (onmessage interruptedMessage s) = currentTurn s \<and>
   transcript (onmessage interruptedMessage s) = transcript s \<and>
   currentTurn (onmessage (Some (c\<lparr>interrupted := True\<rparr>)) s) =
     currentTurn (onmessage (Some (c\<lparr>interrupted := False\<rparr>)) s) \<and>
   transcript (onmessage (Some (c\<lparr>interrupted := True\<rparr>)) s) =
     transcript (onmessage (Some (c\<lparr>interrupted := False\<rparr>)) s)"
proof -
  have "onmessage_setCurrentTurn interruptedMessage t = (t, [])" for t
    by (simp add: onmessage_setCurrentTurn_def interruptedMessage_def)
  then have "onmessage interruptedMessage s = handleStopPlayback s"
    by (simp add: onmessage_def interruptedMessage_def onmessage_interrupted_def)
  then show ?thesis
    by (simp add: handleStopPlayback_fields onmessage_text setCurrentTurn_interrupted_flag)
qed

text \<open>
  Witness for C7: the pending user text survives an interruption.
\<close>

theorem C7_interrupted_keeps_text_witness:
  "currentTurn (onmessage interruptedMessage
      (run [ServerMessage (inputMessage (str ''hi''))] initialSession)) =
     \<lparr>user = str ''hi'', model = [], modelSources = []\<rparr> \<and>
   transcript (onmessage interruptedMessage
      (run [ServerMessage (inputMessage (str ''hi''))] initialSession)) = []"
proof -
  let ?s = "run [ServerMessage (inputMessage (str ''hi''))] initialSession"
  have "currentTurn ?s = \<lparr>user = str ''hi'', model = [], modelSources = []\<rparr>"
    and "transcript ?s = []"
    by (simp_all add: run_Cons run_Nil onmessage_text initialSession_def eval_turn
        inputMessage_def)
  moreover from C7_interrupted_keeps_text [of ?s]
  have "currentTurn (onmessage interruptedMessage ?s) = currentTurn ?s"
    and "transcript (onmessage interruptedMessage ?s) = transcript ?s"
    by blast+
  ultimately show ?thesis
    by (simp only: simp_thms)
qed

section \<open>Content filter: the scan against its description\<close>

lemma star_not_word: "\<not> isWordChar star"
  by (simp add: isWordChar_def star_def)

lemma star_not_space: "\<not> isWhiteSpace star"
  by (simp add: isWhiteSpace_def star_def)

lemma canonicalize_letter:
  assumes "97 \<le> p" and "p \<le> 122"
  shows "canonicalize c = canonicalize p \<longleftrightarrow> c = p \<or> c = p - 32"
  using assms unfolding canonicalize_def by (auto split: if_splits)

lemma canonicalize_lower:
  assumes "97 \<le> p" and "p \<le> 122"
  shows "canonicalize c = canonicalize p \<longleftrightarrow> lower c = p"
  using assms unfolding canonicalize_def lower_def by (auto split: if_splits)

lemma letter_word:
  assumes "97 \<le> p" and "p \<le> 122" and "canonicalize c = canonicalize p"
  shows "isWordChar c"
  using assms canonicalize_letter [of p c] unfolding isWordChar_def by auto

lemma matchAt_nth:
  assumes "matchAt w s i" and "k < length w"
  shows "canonicalize (s ! (i + k)) = canonicalize (w ! k)"
proof -
  from assms(1) have le: "i + length w \<le> length s"
    and eq: "map canonicalize (take (length w) (drop i s)) = map canonicalize w"
    by (simp_all add: matchAt_def)
  from eq have "map canonicalize (take (length w) (drop i s)) ! k = map canonicalize w ! k"
    by simp
  then show ?thesis
    using assms(2) le by simp
qed

lemma matchAt_word:
  assumes "lowercase w" and "matchAt w s i" and "i \<le> k" and "k < i + length w"
  shows "isWordChar (s ! k)"
proof -
  from assms(3,4) have k: "k - i < length w" and ik: "i + (k - i) = k"
    by simp_all
  from assms(1) k have "97 \<le> w ! (k - i) \<and> w ! (k - i) \<le> 122"
    by (simp add: lowercase_def)
  moreover from matchAt_nth [OF assms(2) k] have "canonicalize (s ! k) = canonicalize (w ! (k - i))"
    by (simp add: ik)
  ultimately show ?thesis
    using letter_word by blast
qed

lemma matchAt_bound: "matchAt w s i \<Longrightarrow> i + length w \<le> length s"
  by (simp add: matchAt_def)

text \<open>No word boundary lies strictly inside a match.\<close>

lemma no_boundary_inside:
  assumes "lowercase w" and "matchAt w s i" and "i < e" and "e < i + length w"
  shows "\<not> isWordBoundary s e"
proof -
  have "isWordChar (s ! (e - 1))"
    using assms by (intro matchAt_word [OF assms(1,2)]) simp_all
  moreover have "isWordChar (s ! e)"
    using assms by (intro matchAt_word [OF assms(1,2)]) simp_all
  moreover have "e < length s"
    using matchAt_bound [OF assms(2)] assms(4) by simp
  ultimately show ?thesis
    using assms(3) by (simp add: isWordBoundary_def)
qed

lemma matchAt_start: "matchAt w s i \<Longrightarrow> isWordBoundary s i"
  by (simp add: matchAt_def)

lemma matchAt_end: "matchAt w s i \<Longrightarrow> isWordBoundary s (i + length w)"
  by (simp add: matchAt_def)

lemma lowercase_canonical_inj:
  assumes "lowercase w" and "lowercase w'" and "map canonicalize w = map canonicalize w'"
  shows "w = w'"
proof (rule nth_equalityI)
  from assms(3) show len: "length w = length w'"
    by (rule map_eq_imp_length_eq)
  fix k assume k: "k < length w"
  from assms(3) have "map canonicalize w ! k = map canonicalize w' ! k"
    by simp
  with k len have c: "canonicalize (w ! k) = canonicalize (w' ! k)"
    by simp
  from assms(1,2) k len have "97 \<le> w ! k \<and> w ! k \<le> 122" and "97 \<le> w' ! k \<and> w' ! k \<le> 122"
    by (simp_all add: lowercase_def)
  with c show "w ! k = w' ! k"
    unfolding canonicalize_def by (simp split: if_splits) linarith
qed

text \<open>Matches of two different words never overlap.\<close>

lemma matches_disjoint:
  assumes w: "lowercase w" and w': "lowercase w'" and ne: "w \<noteq> w'"
    and m: "matchAt w s i" and m': "matchAt w' s j"
  shows "i + length w \<le> j \<or> j + length w' \<le> i"
proof (rule ccontr)
  assume "\<not> ?thesis"
  then have ov: "j < i + length w" "i < j + length w'"
    by simp_all
  consider "i < j" | "j < i" | "i = j"
    by linarith
  then show False
  proof cases
    case 1
    with no_boundary_inside [OF w m _ ov(1)] matchAt_start [OF m'] show False
      by simp
  next
    case 2
    with no_boundary_inside [OF w' m' _ ov(2)] matchAt_start [OF m] show False
      by simp
  next
    case 3
    consider "length w < length w'" | "length w' < length w" | "length w = length w'"
      by linarith
    then show False
    proof cases
      case 1
      from w have "0 < length w"
        by (simp add: lowercase_def)
      with 1 3 no_boundary_inside [OF w' m', of "i + length w"] matchAt_end [OF m] show False
        by simp
    next
      case 2
      from w' have "0 < length w'"
        by (simp add: lowercase_def)
      with 2 3 no_boundary_inside [OF w m, of "j + length w'"] matchAt_end [OF m'] show False
        by simp
    next
      case same: 3
      from m m' 3 same have "map canonicalize w = map canonicalize w'"
        by (simp add: matchAt_def)
      with lowercase_canonical_inj [OF w w'] ne show False
        by simp
    qed
  qed
qed

lemma covered_single:
  "covered {w} s k \<longleftrightarrow> (\<exists>j\<le>k. k < j + length w \<and> matchAt w s j)"
  by (simp add: covered_def)

text \<open>One pass of the scan, from a position no earlier match reaches.\<close>

lemma replace_censors:
  assumes w: "lowercase w" and "\<forall>j<i. matchAt w s j \<longrightarrow> j + length w \<le> i"
  shows "replace w (replicate (length w) star) s i =
           map (\<lambda>k. if covered {w} s k then star else s ! k) [i..<length s]"
  using assms(2)
proof (induction "length s - i" arbitrary: i rule: less_induct)
  case less
  let ?n = "length w"
  let ?f = "\<lambda>k. if covered {w} s k then star else s ! k"
  from w have wne: "w \<noteq> []" and n: "0 < ?n"
    by (simp_all add: lowercase_def)
  show ?case
  proof (cases "length s \<le> i")
    case True
    then show ?thesis
      by (simp add: replace.simps)
  next
    case False
    then have i: "i < length s" by simp
    show ?thesis
    proof (cases "matchAt w s i")
      case True
      have le: "i + ?n \<le> length s"
        by (rule matchAt_bound [OF True])
      have pre: "\<forall>j<i + ?n. matchAt w s j \<longrightarrow> j + ?n \<le> i + ?n"
      proof (intro allI impI)
        fix j assume j: "j < i + ?n" and m: "matchAt w s j"
        show "j + ?n \<le> i + ?n"
        proof (cases "j \<le> i")
          case True
          then show ?thesis by simp
        next
          case False
          then have "i < j" by simp
          with no_boundary_inside [OF w \<open>matchAt w s i\<close> this j] matchAt_start [OF m]
          show ?thesis by simp
        qed
      qed
      have rest: "replace w (replicate ?n star) s (i + ?n) = map ?f [i + ?n..<length s]"
      proof (rule less.hyps [OF _ pre])
        show "length s - (i + ?n) < length s - i"
          using i n by linarith
      qed
      have front: "map ?f [i..<i + ?n] = replicate ?n star"
      proof (rule nth_equalityI)
        show "length (map ?f [i..<i + ?n]) = length (replicate ?n star)"
          by simp
        fix k assume "k < length (map ?f [i..<i + ?n])"
        then have k: "k < ?n"
          by simp
        with True have "i \<le> i + k \<and> i + k < i + ?n \<and> matchAt w s i"
          by simp
        then have "covered {w} s (i + k)"
          unfolding covered_single by blast
        with k show "map ?f [i..<i + ?n] ! k = replicate ?n star ! k"
          by simp
      qed
      have "[i..<length s] = [i..<i + ?n] @ [i + ?n..<length s]"
        using le by (metis le_add1 upt_add_eq_append le_Suc_ex)
      then have "map ?f [i..<length s] = replicate ?n star @ map ?f [i + ?n..<length s]"
        using front by simp
      moreover have "replace w (replicate ?n star) s i =
          replicate ?n star @ replace w (replicate ?n star) s (i + ?n)"
        using False True wne by (subst replace.simps) simp
      ultimately show ?thesis
        using rest by simp
    next
      case nomatch: False
      have pre: "\<forall>j<Suc i. matchAt w s j \<longrightarrow> j + ?n \<le> Suc i"
      proof (intro allI impI)
        fix j assume j: "j < Suc i" and m: "matchAt w s j"
        with nomatch have "j < i"
          by (cases "j = i") auto
        with less.prems m show "j + ?n \<le> Suc i"
          by fastforce
      qed
      have rest: "replace w (replicate ?n star) s (Suc i) = map ?f [Suc i..<length s]"
      proof (rule less.hyps [OF _ pre])
        show "length s - Suc i < length s - i"
          using i by linarith
      qed
      have "\<not> covered {w} s i"
      proof
        assume "covered {w} s i"
        then obtain j where j: "j \<le> i" "i < j + ?n" "matchAt w s j"
          by (auto simp: covered_single)
        with nomatch have "j < i"
          by (cases "j = i") auto
        with less.prems j(3) have "j + ?n \<le> i"
          by simp
        with j(2) show False by simp
      qed
      then have "map ?f [i..<length s] = s ! i # map ?f [Suc i..<length s]"
        using i by (simp add: upt_conv_Cons)
      moreover have "replace w (replicate ?n star) s i =
          s ! i # replace w (replicate ?n star) s (Suc i)"
        using False nomatch by (subst replace.simps) simp
      ultimately show ?thesis
        using rest by simp
    qed
  qed
qed

lemma replace_censor:
  assumes "lowercase w"
  shows "replace w (replicate (length w) star) s 0 = censor {w} s"
  using replace_censors [OF assms, of 0 s] by (simp add: censor_def)

lemma length_censor: "length (censor W s) = length s"
  by (simp add: censor_def)

lemma censor_nth:
  "k < length s \<Longrightarrow> censor W s ! k = (if covered W s k then star else s ! k)"
  by (simp add: censor_def)

lemma censor_empty: "censor {} s = s"
  by (simp add: censor_def covered_def map_nth)

lemma covered_insert:
  "covered (insert w W) s k \<longleftrightarrow> (\<exists>j\<le>k. k < j + length w \<and> matchAt w s j) \<or> covered W s k"
  by (auto simp: covered_def)

lemma covered_word:
  assumes "\<forall>w\<in>W. lowercase w" and "covered W s k"
  shows "isWordChar (s ! k) \<and> k < length s"
proof -
  from assms(2) obtain w j where w: "w \<in> W" and j: "j \<le> k" "k < j + length w" "matchAt w s j"
    by (auto simp: covered_def)
  from w assms(1) have "lowercase w"
    by simp
  from matchAt_word [OF this j(3) j(1) j(2)] matchAt_bound [OF j(3)] j(2) show ?thesis
    by simp
qed

text \<open>A position that is not a word character stays one under censoring.\<close>

lemma censor_word_imp:
  assumes "k < length s" and "isWordChar (censor W s ! k)"
  shows "isWordChar (s ! k) \<and> \<not> covered W s k \<and> censor W s ! k = s ! k"
  using assms star_not_word by (auto simp: censor_nth split: if_splits)

text \<open>
  Censoring the matches of some words neither creates nor destroys a match of another
  word.
\<close>

lemma matchAt_censor:
  assumes W: "\<forall>w\<in>W. lowercase w" and w': "lowercase w'" and new: "w' \<notin> W"
  shows "matchAt w' (censor W s) j \<longleftrightarrow> matchAt w' s j"
proof
  let ?t = "censor W s"
  let ?m = "length w'"
  from w' have m: "0 < ?m"
    by (simp add: lowercase_def)
  assume mt: "matchAt w' ?t j"
  have le: "j + ?m \<le> length s"
    using matchAt_bound [OF mt] by (simp add: length_censor)
  have same: "\<not> covered W s k \<and> ?t ! k = s ! k \<and> isWordChar (s ! k)"
    if "j \<le> k" "k < j + ?m" for k
  proof -
    have "isWordChar (?t ! k)"
      by (rule matchAt_word [OF w' mt that])
    with censor_word_imp [of k s W] that le show ?thesis
      by simp
  qed
  have eq: "take ?m (drop j ?t) = take ?m (drop j s)"
  proof (rule nth_equalityI)
    show "length (take ?m (drop j ?t)) = length (take ?m (drop j s))"
      by (simp add: length_censor)
    fix k assume "k < length (take ?m (drop j ?t))"
    then have k: "k < ?m"
      by simp
    with same [of "j + k"] le show "take ?m (drop j ?t) ! k = take ?m (drop j s) ! k"
      by (simp add: length_censor)
  qed
  have before: "\<not> (0 < j \<and> isWordChar (s ! (j - 1)))"
  proof
    assume a: "0 < j \<and> isWordChar (s ! (j - 1))"
    from matchAt_start [OF mt] same [of j] m le
    have nt: "\<not> isWordChar (?t ! (j - 1))"
      using a by (simp add: isWordBoundary_def length_censor)
    from a le m have j1: "j - 1 < length s"
      by linarith
    with nt a have "covered W s (j - 1)"
      by (auto simp: censor_nth split: if_splits)
    then obtain w i where w: "w \<in> W" and i: "i \<le> j - 1" "j - 1 < i + length w" "matchAt w s i"
      by (auto simp: covered_def)
    from w W have lw: "lowercase w"
      by simp
    have "\<not> covered W s j"
      using same [of j] m by simp
    with w i have "\<not> (i \<le> j \<and> j < i + length w)"
      by (auto simp: covered_def)
    with i a have e: "i + length w = j"
      by linarith
    from lw have "0 < length w"
      by (simp add: lowercase_def)
    from matchAt_end [OF i(3)] e a same [of j] m le show False
      by (simp add: isWordBoundary_def)
  qed
  have after: "\<not> (j + ?m < length s \<and> isWordChar (s ! (j + ?m)))"
  proof
    assume a: "j + ?m < length s \<and> isWordChar (s ! (j + ?m))"
    have "j \<le> j + ?m - 1" "j + ?m - 1 < j + ?m"
      using m by linarith+
    from same [OF this]
    have last: "isWordChar (?t ! (j + ?m - 1))" "?t ! (j + ?m - 1) = s ! (j + ?m - 1)"
      "\<not> covered W s (j + ?m - 1)"
      by simp_all
    from matchAt_end [OF mt] last(1) m a
    have nt: "\<not> isWordChar (?t ! (j + ?m))"
      by (simp add: isWordBoundary_def length_censor)
    with a have "covered W s (j + ?m)"
      by (auto simp: censor_nth split: if_splits)
    then obtain w i where w: "w \<in> W"
      and i: "i \<le> j + ?m" "j + ?m < i + length w" "matchAt w s i"
      by (auto simp: covered_def)
    from w W have lw: "lowercase w"
      by simp
    from last(3) w i(3) have "\<not> (i \<le> j + ?m - 1 \<and> j + ?m - 1 < i + length w)"
      by (auto simp: covered_def)
    with i m have e: "i = j + ?m"
      by linarith
    have "isWordChar (s ! i)"
      using a e by simp
    moreover have "isWordChar (s ! (i - 1))"
      using last e by simp
    ultimately show False
      using matchAt_start [OF i(3)] e m a by (simp add: isWordBoundary_def)
  qed
  have inside: "j \<le> j + ?m - 1" "j + ?m - 1 < j + ?m" "j \<le> j" "j < j + ?m"
    using m by linarith+
  have wj: "isWordChar (s ! j)" and wl: "isWordChar (s ! (j + ?m - 1))"
    using same [OF inside(3,4)] same [OF inside(1,2)] by simp_all
  from mt have "map canonicalize (take ?m (drop j s)) = map canonicalize w'"
    by (simp add: matchAt_def eq)
  with before after wj wl le m show "matchAt w' s j"
    by (auto simp: matchAt_def isWordBoundary_def)
next
  let ?t = "censor W s"
  let ?m = "length w'"
  from w' have m: "0 < ?m"
    by (simp add: lowercase_def)
  assume ms: "matchAt w' s j"
  have le: "j + ?m \<le> length s"
    by (rule matchAt_bound [OF ms])
  have free: "\<not> covered W s k" if "j \<le> k" "k < j + ?m" for k
  proof
    assume "covered W s k"
    then obtain w i where w: "w \<in> W" and i: "i \<le> k" "k < i + length w" "matchAt w s i"
      by (auto simp: covered_def)
    from w W new have "lowercase w" and "w \<noteq> w'"
      by auto
    from matches_disjoint [OF this(1) w' this(2) i(3) ms] that i show False
      by linarith
  qed
  have same: "?t ! k = s ! k" if "j \<le> k" "k < j + ?m" for k
    using free [OF that] that le by (simp add: censor_nth)
  have eq: "take ?m (drop j ?t) = take ?m (drop j s)"
  proof (rule nth_equalityI)
    show "length (take ?m (drop j ?t)) = length (take ?m (drop j s))"
      by (simp add: length_censor)
    fix k assume "k < length (take ?m (drop j ?t))"
    then have k: "k < ?m"
      by simp
    with same [of "j + k"] le show "take ?m (drop j ?t) ! k = take ?m (drop j s) ! k"
      by (simp add: length_censor)
  qed
  have inside: "j \<le> j + ?m - 1" "j + ?m - 1 < j + ?m" "j \<le> j" "j < j + ?m"
    using m by linarith+
  have wj: "isWordChar (s ! j)" and wl: "isWordChar (s ! (j + ?m - 1))"
    using matchAt_word [OF w' ms inside(3,4)] matchAt_word [OF w' ms inside(1,2)] by simp_all
  have weaker: "isWordChar (?t ! k) \<Longrightarrow> isWordChar (s ! k)" if "k < length s" for k
    using censor_word_imp [OF that] by simp
  from matchAt_start [OF ms] wj m le have b: "\<not> (0 < j \<and> isWordChar (s ! (j - 1)))"
    by (simp add: isWordBoundary_def)
  from matchAt_end [OF ms] wl m le have a: "\<not> (j + ?m < length s \<and> isWordChar (s ! (j + ?m)))"
    by (simp add: isWordBoundary_def)
  have tb: "\<not> (0 < j \<and> isWordChar (?t ! (j - 1)))"
  proof
    assume c: "0 < j \<and> isWordChar (?t ! (j - 1))"
    with le have "j - 1 < length s"
      by linarith
    from weaker [OF this] b c show False
      by simp
  qed
  have ta: "\<not> (j + ?m < length s \<and> isWordChar (?t ! (j + ?m)))"
    using a weaker [of "j + ?m"] by auto
  from ms have "map canonicalize (take ?m (drop j ?t)) = map canonicalize w'"
    by (simp add: matchAt_def eq)
  with tb ta wj wl le m same [OF inside(3,4)] same [OF inside(1,2)] show "matchAt w' ?t j"
    by (auto simp: matchAt_def isWordBoundary_def length_censor)
qed

lemma censor_step:
  assumes W: "\<forall>w\<in>W. lowercase w" and w': "lowercase w'" and new: "w' \<notin> W"
  shows "replace w' (replicate (length w') star) (censor W s) 0 = censor (insert w' W) s"
proof -
  let ?t = "censor W s"
  have cov: "covered {w'} ?t k = (\<exists>j\<le>k. k < j + length w' \<and> matchAt w' s j)" for k
    by (simp add: covered_single matchAt_censor [OF assms])
  have r: "replace w' (replicate (length w') star) ?t 0 = censor {w'} ?t"
    by (rule replace_censor [OF w'])
  show ?thesis
  proof (rule nth_equalityI)
    show "length (replace w' (replicate (length w') star) ?t 0) = length (censor (insert w' W) s)"
      by (simp add: r length_censor)
    fix k assume "k < length (replace w' (replicate (length w') star) ?t 0)"
    then have k: "k < length s"
      by (simp add: r length_censor)
    have "replace w' (replicate (length w') star) ?t 0 ! k =
        (if covered {w'} ?t k then star else ?t ! k)"
      using k by (simp add: r censor_nth length_censor)
    also have "\<dots> = (if covered (insert w' W) s k then star else s ! k)"
      using k unfolding cov by (auto simp: censor_nth covered_insert)
    also have "\<dots> = censor (insert w' W) s ! k"
      using k by (simp add: censor_nth)
    finally show "replace w' (replicate (length w') star) ?t 0 ! k = censor (insert w' W) s ! k" .
  qed
qed

lemma words_codes:
  "str ''darn'' = [100, 97, 114, 110]" "str ''heck'' = [104, 101, 99, 107]"
  "str ''gosh'' = [103, 111, 115, 104]" "str ''shoot'' = [115, 104, 111, 111, 116]"
  by (simp_all add: str_def)

lemma lowercase_words:
  "lowercase (str ''darn'')" "lowercase (str ''heck'')" "lowercase (str ''gosh'')"
  "lowercase (str ''shoot'')"
  unfolding words_codes by (simp_all add: lowercase_def)

lemma words_distinct:
  "str ''heck'' \<noteq> str ''darn''"
  "str ''gosh'' \<noteq> str ''heck''" "str ''gosh'' \<noteq> str ''darn''"
  "str ''shoot'' \<noteq> str ''gosh''" "str ''shoot'' \<noteq> str ''heck''" "str ''shoot'' \<noteq> str ''darn''"
  unfolding words_codes by simp_all

lemma filterProfanity_censor: "filterProfanity s = censor (set SFW_PROFANITY_LIST) s"
proof -
  define d h g sh where "d = str ''darn''" and "h = str ''heck''" and "g = str ''gosh''"
    and "sh = str ''shoot''"
  define r where "r = (\<lambda>t w. replace w (replicate (length w) star) t 0)"
  have low: "lowercase d" "lowercase h" "lowercase g" "lowercase sh"
    by (simp_all add: d_def h_def g_def sh_def lowercase_words)
  have ne: "h \<noteq> d" "g \<noteq> h" "g \<noteq> d" "sh \<noteq> g" "sh \<noteq> h" "sh \<noteq> d"
    by (simp_all only: d_def h_def g_def sh_def words_distinct not_False_eq_True)
  have 1: "r s d = censor {d} s"
    using censor_step [of "{}" d s] low(1) by (simp add: censor_empty r_def)
  have 2: "r (censor {d} s) h = censor {h, d} s"
    unfolding r_def by (rule censor_step) (use low ne in simp_all)
  have 3: "r (censor {h, d} s) g = censor {g, h, d} s"
    unfolding r_def by (rule censor_step) (use low ne in simp_all)
  have 4: "r (censor {g, h, d} s) sh = censor {sh, g, h, d} s"
    unfolding r_def by (rule censor_step) (use low ne in simp_all)
  have list: "SFW_PROFANITY_LIST = [d, h, g, sh]"
    by (simp only: SFW_PROFANITY_LIST_def d_def h_def g_def sh_def)
  have "filterProfanity s = foldl r s [d, h, g, sh]"
    by (simp only: filterProfanity_def list r_def)
  also have "\<dots> = censor {sh, g, h, d} s"
    by (simp only: foldl.simps 1 2 3 4)
  also have "{sh, g, h, d} = set SFW_PROFANITY_LIST"
    unfolding list by auto
  finally show ?thesis .
qed

lemma map_canonicalize_lower:
  assumes "lowercase w" and "length xs = length w"
  shows "map canonicalize xs = map canonicalize w \<longleftrightarrow> map lower xs = w"
proof -
  have "canonicalize (xs ! k) = canonicalize (w ! k) \<longleftrightarrow> lower (xs ! k) = w ! k"
    if "k < length w" for k
    using assms(1) that by (intro canonicalize_lower) (simp_all add: lowercase_def)
  then show ?thesis
    using assms(2) by (auto simp: list_eq_iff_nth_eq)
qed

lemma matchAt_occursAt:
  assumes w: "lowercase w"
  shows "matchAt w s j \<longleftrightarrow> occursAt w s j"
proof (cases "j + length w \<le> length s")
  case False
  then show ?thesis
    by (simp add: matchAt_def occursAt_def)
next
  case le: True
  let ?n = "length w"
  from w have n: "0 < ?n"
    by (simp add: lowercase_def)
  have len: "length (take ?n (drop j s)) = ?n"
    using le by simp
  note letters = map_canonicalize_lower [OF w len]
  show ?thesis
  proof (cases "map lower (take ?n (drop j s)) = w")
    case False
    then show ?thesis
      by (simp add: matchAt_def occursAt_def letters)
  next
    case True
    have word: "isWordChar (s ! k)" if "j \<le> k" "k < j + ?n" for k
    proof -
      from that have k: "k - j < ?n" "j + (k - j) = k"
        by simp_all
      from True letters have "map canonicalize (take ?n (drop j s)) = map canonicalize w"
        by blast
      then have "map canonicalize (take ?n (drop j s)) ! (k - j) = map canonicalize w ! (k - j)"
        by (rule arg_cong)
      with k le have "canonicalize (s ! k) = canonicalize (w ! (k - j))"
        by simp
      moreover from w k(1) have "97 \<le> w ! (k - j)" "w ! (k - j) \<le> 122"
        by (simp_all add: lowercase_def)
      ultimately show ?thesis
        by (rule letter_word [rotated 2])
    qed
    have "j \<le> j + ?n - 1" "j + ?n - 1 < j + ?n" "j \<le> j" "j < j + ?n"
      using n by linarith+
    then have first: "isWordChar (s ! j)" and last: "isWordChar (s ! (j + ?n - 1))"
      using word by blast+
    have "j < length s"
      using le n by linarith
    with first last n have "isWordBoundary s j \<longleftrightarrow> \<not> (0 < j \<and> isWordChar (s ! (j - 1)))"
      and "isWordBoundary s (j + ?n) \<longleftrightarrow> \<not> (j + ?n < length s \<and> isWordChar (s ! (j + ?n)))"
      by (auto simp: isWordBoundary_def)
    with True le show ?thesis
      by (simp add: matchAt_def occursAt_def letters)
  qed
qed

lemma covered_censored: "covered (set SFW_PROFANITY_LIST) s i \<longleftrightarrow> censored s i"
proof -
  have "\<forall>w\<in>set SFW_PROFANITY_LIST. lowercase w"
    by (simp add: SFW_PROFANITY_LIST_def lowercase_words)
  then have "\<forall>w\<in>set SFW_PROFANITY_LIST. \<forall>j. matchAt w s j = occursAt w s j"
    using matchAt_occursAt by blast
  then show ?thesis
    unfolding covered_def censored_def by (auto simp: Bex_def)
qed

lemma filterProfanity_spec: "filterProfanity s = spec_filterProfanity s"
  by (simp add: filterProfanity_censor censor_def spec_filterProfanity_def covered_censored)

lemma length_filterProfanity: "length (filterProfanity s) = length s"
  by (simp add: filterProfanity_censor length_censor)

lemma filterProfanity_nth:
  assumes "k < length s"
  shows "filterProfanity s ! k = s ! k \<or> filterProfanity s ! k = star"
  using assms by (simp add: filterProfanity_censor censor_nth)

subsection \<open>Trimming\<close>

lemma trim_Nil_iff: "trim s = [] \<longleftrightarrow> (\<forall>c\<in>set s. isWhiteSpace c)"
proof
  assume "trim s = []"
  then have all: "\<forall>c\<in>set (dropWhile isWhiteSpace s). isWhiteSpace c"
    by (simp add: trim_def)
  have "dropWhile isWhiteSpace s = []"
  proof (rule ccontr)
    assume ne: "dropWhile isWhiteSpace s \<noteq> []"
    then have "\<not> isWhiteSpace (hd (dropWhile isWhiteSpace s))"
      by (rule hd_dropWhile)
    moreover from ne have "hd (dropWhile isWhiteSpace s) \<in> set (dropWhile isWhiteSpace s)"
      by simp
    ultimately show False
      using all by blast
  qed
  then show "\<forall>c\<in>set s. isWhiteSpace c"
    by simp
next
  assume "\<forall>c\<in>set s. isWhiteSpace c"
  then have e: "dropWhile isWhiteSpace s = []"
    by simp
  show "trim s = []"
    unfolding trim_def e by simp
qed

lemma trim_filterProfanity:
  assumes "trim u \<noteq> []"
  shows "trim (filterProfanity u) \<noteq> []"
proof -
  from assms obtain k where k: "k < length u" "\<not> isWhiteSpace (u ! k)"
    by (auto simp: trim_Nil_iff in_set_conv_nth)
  from filterProfanity_nth [OF k(1)] k(2) star_not_space
  have "\<not> isWhiteSpace (filterProfanity u ! k)"
    by auto
  moreover have "filterProfanity u ! k \<in> set (filterProfanity u)"
    using k(1) by (simp add: length_filterProfanity)
  ultimately show ?thesis
    by (auto simp: trim_Nil_iff)
qed

lemma set_trim: "set (trim s) \<subseteq> set s"
proof -
  have "set (dropWhile isWhiteSpace (rev (dropWhile isWhiteSpace s))) \<subseteq> set (rev (dropWhile isWhiteSpace s))"
    by (rule set_dropWhileD [THEN subsetI])
  also have "\<dots> \<subseteq> set s"
    using set_dropWhileD [of _ isWhiteSpace s] by auto
  finally show ?thesis
    by (simp add: trim_def)
qed

lemma trim_trim_nonempty: "trim u \<noteq> [] \<Longrightarrow> trim (trim u) \<noteq> []"
proof -
  assume ne: "trim u \<noteq> []"
  let ?d = "dropWhile isWhiteSpace (rev (dropWhile isWhiteSpace u))"
  from ne have d: "?d \<noteq> []"
    unfolding trim_def by simp
  then have "\<not> isWhiteSpace (hd ?d)"
    by (rule hd_dropWhile)
  moreover from d have "hd ?d \<in> set ?d"
    by (rule hd_in_set)
  then have "hd ?d \<in> set (trim u)"
    by (simp add: trim_def)
  ultimately show ?thesis
    by (auto simp: trim_Nil_iff)
qed

section \<open>Turn aggregation\<close>

lemma recordable_userEntry: "trim u \<noteq> [] \<Longrightarrow> recordable (userEntry (trim u))"
  by (simp add: recordable_def userEntry_def trim_filterProfanity trim_trim_nonempty)

lemma setCurrentTurn_entries:
  "\<forall>e\<in>set (snd (onmessage_setCurrentTurn m t)).
     (speaker e = User \<longrightarrow>
        (entryText e = filterProfanity (trim (user t)) \<and> trim (user t) \<noteq> [] \<or>
         entryText e = filterProfanity (trim (pendingUser m t)) \<and> trim (pendingUser m t) \<noteq> []) \<and>
        sources e = None) \<and>
     (speaker e = Model \<longrightarrow> entryText e = model t @ outputFragment m \<and> entryText e \<noteq> [])"
  by (cases m)
    (auto simp: onmessage_setCurrentTurn_def Let_def userEntry_def pendingUser_def
      inputFragment_def outputFragment_def fragment_def appendText_def
      split: option.splits if_splits)

lemma setCurrentTurn_pending:
  "user (fst (onmessage_setCurrentTurn m t)) =
     (if (case m of None \<Rightarrow> False | Some c \<Rightarrow> turnComplete c) then [] else pendingUser m t)"
  "model (fst (onmessage_setCurrentTurn m t)) =
     (if (case m of None \<Rightarrow> False | Some c \<Rightarrow> turnComplete c) then []
      else model t @ outputFragment m)"
  by (cases m;
    auto simp: onmessage_setCurrentTurn_def Let_def pendingUser_def
      inputFragment_def outputFragment_def fragment_def appendText_def
      split: option.splits if_splits)+

lemma setCurrentTurn_recordable:
  "\<forall>e\<in>set (snd (onmessage_setCurrentTurn m t)). recordable e"
proof
  fix e assume e: "e \<in> set (snd (onmessage_setCurrentTurn m t))"
  show "recordable e"
  proof (cases "speaker e")
    case User
    with setCurrentTurn_entries [of m t] e
    have "entryText e = filterProfanity (trim (user t)) \<and> trim (user t) \<noteq> [] \<or>
        entryText e = filterProfanity (trim (pendingUser m t)) \<and> trim (pendingUser m t) \<noteq> []"
      by blast
    then have "trim (entryText e) \<noteq> []"
      using trim_filterProfanity trim_trim_nonempty by metis
    with User show ?thesis
      by (simp add: recordable_def)
  next
    case Model
    with setCurrentTurn_entries [of m t] e have "entryText e \<noteq> []"
      by blast
    with Model show ?thesis
      by (simp add: recordable_def)
  qed
qed

lemma step_transcript:
  "transcript (step ev s) =
     transcript s @
       (case ev of ServerMessage m \<Rightarrow> snd (onmessage_setCurrentTurn m (currentTurn s)) | _ \<Rightarrow> [])"
  by (cases ev)
    (simp_all add: onmessage_text handleStopPlayback_fields handlePauseResume_def
      setPlaybackRate_def onended_def)

lemma step_recordable:
  assumes "\<forall>e\<in>set (transcript s). recordable e"
  shows "\<forall>e\<in>set (transcript (step ev s)). recordable e"
proof (cases ev)
  case (ServerMessage m)
  then have "transcript (step ev s) =
      transcript s @ snd (onmessage_setCurrentTurn m (currentTurn s))"
    by (simp only: step_transcript event.case)
  with assms setCurrentTurn_recordable [of m "currentTurn s"] show ?thesis
    by auto
qed (use assms in \<open>simp_all only: step_transcript event.case append_Nil2\<close>)

lemma run_recordable:
  assumes "\<forall>e\<in>set (transcript s). recordable e"
  shows "\<forall>e\<in>set (transcript (run events s)). recordable e"
  using assms
proof (induction events arbitrary: s)
  case Nil
  then show ?case by (simp add: run_Nil)
next
  case (Cons ev events)
  from Cons.IH [OF step_recordable [OF Cons.prems]] show ?case
    by (simp add: run_Cons)
qed

text \<open>
  Claim C2 (as amended). Starting with an empty transcript, after any sequence of events
  every user entry of the transcript has text left after trimming, and every model entry
  has non-empty text (which is not trimmed and may be white space only). A message that
  completes the turn resets the pending turn, so pending user text that was white space
  only is discarded.
\<close>

theorem C2_recorded_turns:
  assumes "transcript s = []"
  shows "(\<forall>e\<in>set (transcript (run events s)).
            (speaker e = User \<longrightarrow> trim (entryText e) \<noteq> []) \<and>
            (speaker e = Model \<longrightarrow> entryText e \<noteq> [])) \<and>
         (turnComplete c \<longrightarrow>
            fst (onmessage_setCurrentTurn (Some c) t) = \<lparr>user = [], model = [], modelSources = []\<rparr>)"
proof -
  have "\<forall>e\<in>set (transcript s). recordable e"
    using assms by simp
  from run_recordable [OF this]
  have "\<forall>e\<in>set (transcript (run events s)). recordable e" .
  then have "\<forall>e\<in>set (transcript (run events s)).
      (speaker e = User \<longrightarrow> trim (entryText e) \<noteq> []) \<and>
      (speaker e = Model \<longrightarrow> entryText e \<noteq> [])"
    by (auto simp: recordable_def)
  moreover have "turnComplete c \<longrightarrow>
      fst (onmessage_setCurrentTurn (Some c) t) = \<lparr>user = [], model = [], modelSources = []\<rparr>"
    by (simp add: onmessage_setCurrentTurn_def Let_def)
  ultimately show ?thesis
    by blast
qed

text \<open>
  The scenarios of the specification: \<open>hi\<close>, \<open>hello\<close>, turn complete; and a blank user
  text, turn complete.
\<close>

lemma scenario_hi_hello:
  "transcript (run [ServerMessage (inputMessage (str ''hi'')),
      ServerMessage (outputMessage (str ''hello'')), ServerMessage turnCompleteMessage]
      initialSession) =
     [\<lparr>speaker = User, entryText = str ''hi'', sources = None\<rparr>,
      \<lparr>speaker = Model, entryText = str ''hello'', sources = Some []\<rparr>]"
  by (simp add: run_Cons run_Nil onmessage_text initialSession_def eval_turn eval_filter
      inputMessage_def outputMessage_def turnCompleteMessage_def)

lemma scenario_blank:
  "transcript (run [ServerMessage (inputMessage (str ''  '')), ServerMessage turnCompleteMessage]
      initialSession) = []"
  by (simp add: run_Cons run_Nil onmessage_text initialSession_def eval_turn eval_filter
      inputMessage_def outputMessage_def turnCompleteMessage_def)

text \<open>
  Witness for C2, on the two scenarios.
\<close>

theorem C2_recorded_turns_witness:
  "transcript (run [ServerMessage (inputMessage (str ''hi'')),
      ServerMessage (outputMessage (str ''hello'')), ServerMessage turnCompleteMessage]
      initialSession) =
     [\<lparr>speaker = User, entryText = str ''hi'', sources = None\<rparr>,
      \<lparr>speaker = Model, entryText = str ''hello'', sources = Some []\<rparr>] \<and>
   trim (str ''hi'') \<noteq> [] \<and> str ''hello'' \<noteq> [] \<and>
   transcript (run [ServerMessage (inputMessage (str ''  '')), ServerMessage turnCompleteMessage]
      initialSession) = []"
proof -
  let ?events = "[ServerMessage (inputMessage (str ''hi'')),
      ServerMessage (outputMessage (str ''hello'')), ServerMessage turnCompleteMessage]"
  have h: "transcript initialSession = []"
    by (simp add: initialSession_def)
  from C2_recorded_turns [OF h, of ?events]
  have "\<forall>e\<in>set (transcript (run ?events initialSession)).
      (speaker e = User \<longrightarrow> trim (entryText e) \<noteq> []) \<and>
      (speaker e = Model \<longrightarrow> entryText e \<noteq> [])"
    by (rule conjunct1)
  then have "trim (str ''hi'') \<noteq> []" and "str ''hello'' \<noteq> []"
    unfolding scenario_hi_hello by simp_all
  with scenario_hi_hello scenario_blank show ?thesis
    by (simp only: simp_thms)
qed

text \<open>
  Counterexample for C2 as stated: an output transcription of one space and a completed
  turn record a model entry whose trimmed text is empty.
\<close>

theorem C2_model_whitespace_counterexample:
  "transcript (run [ServerMessage (modelOnlyMessage (str '' ''))] initialSession) =
     [\<lparr>speaker = Model, entryText = str '' '', sources = Some []\<rparr>] \<and>
   trim (str '' '') = []"
  by (simp add: run_Cons run_Nil onmessage_text modelOnlyMessage_def initialSession_def
      onmessage_setCurrentTurn_def appendText_def str_def trim_def isWhiteSpace_def)

text \<open>
  Claim C8. \<^verbatim>\<open>filterProfanity\<close> computes the filter of the description: an asterisk at
  every position inside a whole-word, case-insensitive occurrence of a listed word, the
  original character elsewhere (so the length is kept). Every user entry a message
  records is the filtered, trimmed pending user text (as it stood before the message,
  or with the message's fragment taken in); every model entry is the pending model
  text with the message's fragment appended, unchanged. The pending user bubble shows
  the filtered pending user text, the pending model bubble the model text as it is.
\<close>

theorem C8_filter_and_verbatim:
  "filterProfanity s = spec_filterProfanity s \<and>
   (\<forall>e\<in>set (snd (onmessage_setCurrentTurn m t)).
      (speaker e = User \<longrightarrow>
         entryText e = spec_filterProfanity (trim (user t)) \<or>
         entryText e = spec_filterProfanity (trim (pendingUser m t))) \<and>
      (speaker e = Model \<longrightarrow> entryText e = model t @ outputFragment m)) \<and>
   pendingUserBubble t = (if user t = [] then None else Some (spec_filterProfanity (user t))) \<and>
   pendingModelBubble t = (if model t = [] then None else Some (model t)) \<and>
   user (fst (onmessage_setCurrentTurn m t)) =
     (if (case m of None \<Rightarrow> False | Some c \<Rightarrow> turnComplete c) then [] else pendingUser m t) \<and>
   model (fst (onmessage_setCurrentTurn m t)) =
     (if (case m of None \<Rightarrow> False | Some c \<Rightarrow> turnComplete c) then []
      else model t @ outputFragment m)"
proof -
  have "\<forall>e\<in>set (snd (onmessage_setCurrentTurn m t)).
      (speaker e = User \<longrightarrow>
         entryText e = spec_filterProfanity (trim (user t)) \<or>
         entryText e = spec_filterProfanity (trim (pendingUser m t))) \<and>
      (speaker e = Model \<longrightarrow> entryText e = model t @ outputFragment m)"
    using setCurrentTurn_entries [of m t] unfolding filterProfanity_spec by blast
  then show ?thesis
    by (simp add: filterProfanity_spec setCurrentTurn_pending pendingUserBubble_def
        pendingModelBubble_def)
qed

text \<open>
  Witness for C8: a word in another case is starred, a word that continues with an
  underscore is kept; the model text keeps its listed word and its spaces.
\<close>

theorem C8_filter_and_verbatim_witness:
  "spec_filterProfanity (str ''Oh Darn, darn_it heck!'') = str ''Oh ****, darn_it ****!'' \<and>
   snd (onmessage_setCurrentTurn turnCompleteMessage
      \<lparr>user = str '' SHOOT it '', model = str '' gosh '', modelSources = []\<rparr>) =
     [\<lparr>speaker = User, entryText = str ''***** it'', sources = None\<rparr>,
      \<lparr>speaker = Model, entryText = str '' gosh '', sources = Some []\<rparr>] \<and>
   pendingUserBubble \<lparr>user = str '' SHOOT it '', model = str '' gosh '', modelSources = []\<rparr> =
     Some (str '' ***** it '')"
proof -
  let ?t = "\<lparr>user = str '' SHOOT it '', model = str '' gosh '', modelSources = []\<rparr>"
  note c8 = C8_filter_and_verbatim [of "str ''Oh Darn, darn_it heck!''" turnCompleteMessage ?t]
  have e: "filterProfanity (str ''Oh Darn, darn_it heck!'') = str ''Oh ****, darn_it ****!''"
    by (simp add: eval_filter)
  from c8 have "filterProfanity (str ''Oh Darn, darn_it heck!'') =
      spec_filterProfanity (str ''Oh Darn, darn_it heck!'')"
    by (rule conjunct1)
  with e have 1: "spec_filterProfanity (str ''Oh Darn, darn_it heck!'') = str ''Oh ****, darn_it ****!''"
    by simp
  have 2: "snd (onmessage_setCurrentTurn turnCompleteMessage ?t) =
     [\<lparr>speaker = User, entryText = str ''***** it'', sources = None\<rparr>,
      \<lparr>speaker = Model, entryText = str '' gosh '', sources = Some []\<rparr>]"
    by (simp add: eval_turn eval_filter turnCompleteMessage_def)
  have 3: "pendingUserBubble ?t = Some (str '' ***** it '')"
    by (simp add: pendingUserBubble_def eval_filter)
  from 1 2 3 show ?thesis
    by (simp only: simp_thms)
qed

section \<open>Retry helper and chat service\<close>

subsection \<open>Retry loop\<close>

lemma withRetry_loop_success:
  "apiCall retries = Inr v \<Longrightarrow>
     withRetry_loop apiCall random maxRetries initialDelay retries waited = (Inr v, waited)"
  by (subst withRetry_loop.simps) simp

lemma withRetry_loop_stop:
  "apiCall retries = Inl e \<Longrightarrow> \<not> (isRetryable e \<and> retries < maxRetries) \<Longrightarrow>
     withRetry_loop apiCall random maxRetries initialDelay retries waited = (Inl e, waited)"
  by (subst withRetry_loop.simps) auto

lemma withRetry_loop_retry:
  "apiCall retries = Inl e \<Longrightarrow> isRetryable e \<Longrightarrow> retries < maxRetries \<Longrightarrow>
     withRetry_loop apiCall random maxRetries initialDelay retries waited =
       withRetry_loop apiCall random maxRetries initialDelay (Suc retries)
         (waited @ [initialDelay * 2 ^ retries + random retries * 1000])"
  by (subst withRetry_loop.simps) simp

text \<open>
  The loop ends after at most \<open>maxRetries\<close> retries; every call it retried failed with a
  retryable error; the delay before retry number \<open>k + 1\<close> is
  \<open>initialDelay * 2 ^ k + random k * 1000\<close>; the outcome is that of the last call, which
  either succeeded, or failed with an error that is not retryable, or was call number
  \<open>maxRetries\<close>.
\<close>

lemma withRetry_loop_spec:
  assumes "retries \<le> maxRetries"
  shows "\<exists>n. retries \<le> n \<and> n \<le> maxRetries \<and>
     withRetry_loop apiCall random maxRetries initialDelay retries waited =
       (apiCall n, waited @ map (\<lambda>k. initialDelay * 2 ^ k + random k * 1000) [retries..<n]) \<and>
     (\<forall>k. retries \<le> k \<and> k < n \<longrightarrow> (\<exists>e. apiCall k = Inl e \<and> isRetryable e)) \<and>
     (case apiCall n of Inr v \<Rightarrow> True | Inl e \<Rightarrow> \<not> isRetryable e \<or> n = maxRetries)"
  using assms
proof (induction "maxRetries - retries" arbitrary: retries waited rule: less_induct)
  case less
  show ?case
  proof (cases "apiCall retries")
    case (Inr v)
    then show ?thesis
      by (intro exI [of _ retries]) (auto simp: withRetry_loop_success less.prems)
  next
    case (Inl e)
    show ?thesis
    proof (cases "isRetryable e \<and> retries < maxRetries")
      case False
      with Inl less.prems show ?thesis
        by (intro exI [of _ retries]) (auto simp: withRetry_loop_stop)
    next
      case True
      let ?waited = "waited @ [initialDelay * 2 ^ retries + random retries * 1000]"
      from True have "maxRetries - Suc retries < maxRetries - retries" and "Suc retries \<le> maxRetries"
        by linarith+
      from less.hyps [OF this, of ?waited] obtain n where n: "Suc retries \<le> n" "n \<le> maxRetries"
        and r: "withRetry_loop apiCall random maxRetries initialDelay (Suc retries) ?waited =
          (apiCall n, ?waited @ map (\<lambda>k. initialDelay * 2 ^ k + random k * 1000) [Suc retries..<n])"
        and f: "\<forall>k. Suc retries \<le> k \<and> k < n \<longrightarrow> (\<exists>e. apiCall k = Inl e \<and> isRetryable e)"
        and l: "case apiCall n of Inr v \<Rightarrow> True | Inl e \<Rightarrow> \<not> isRetryable e \<or> n = maxRetries"
        by blast
      from n have upt: "[retries..<n] = retries # [Suc retries..<n]"
        by (simp add: upt_conv_Cons)
      have "\<forall>k. retries \<le> k \<and> k < n \<longrightarrow> (\<exists>e. apiCall k = Inl e \<and> isRetryable e)"
      proof (intro allI impI)
        fix k assume k: "retries \<le> k \<and> k < n"
        show "\<exists>e. apiCall k = Inl e \<and> isRetryable e"
        proof (cases "k = retries")
          case True
          with Inl \<open>isRetryable e \<and> retries < maxRetries\<close> show ?thesis by simp
        next
          case False
          with k f show ?thesis by simp
        qed
      qed
      with n r l Inl True show ?thesis
        by (intro exI [of _ n]) (simp add: withRetry_loop_retry upt)
    qed
  qed
qed

lemma isRetryable_examples:
  "\<not> isRetryable unavailable" "isRetryable internal"
  by (simp_all add: isRetryable_def unavailable_def internal_def toString_def str_def)

text \<open>
  Claim C6 at a failing input. A call that fails with a 503, whose rendering contains
  neither \<^verbatim>\<open>429\<close> nor \<^verbatim>\<open>500\<close>, is not retried: the error comes back after the first
  call with no delay waited. A call failing with a 500 is retried three times, with
  delays of 2000, 4000 and 8000 milliseconds plus jitter.
\<close>

theorem C6_unavailable_not_retried:
  "toString unavailable = str ''ApiError: got status: 503 Service Unavailable'' \<and>
   withRetry (\<lambda>k. Inl unavailable) random 3 2000 = (Inl unavailable, []) \<and>
   withRetry (\<lambda>k. Inl internal) random 3 2000 =
     (Inl internal, [2000 + random 0 * 1000, 4000 + random 1 * 1000, 8000 + random 2 * 1000])"
proof -
  have "withRetry (\<lambda>k. Inl unavailable) random 3 2000 = (Inl unavailable, [])"
    by (simp add: withRetry_def withRetry_loop_stop isRetryable_examples)
  moreover have "withRetry (\<lambda>k. Inl internal) random 3 2000 =
     (Inl internal, [2000 + random 0 * 1000, 4000 + random 1 * 1000, 8000 + random 2 * 1000])"
    by (simp add: withRetry_def withRetry_loop_retry withRetry_loop_stop isRetryable_examples
        eval_nat_numeral)
  moreover have "toString unavailable = str ''ApiError: got status: 503 Service Unavailable''"
    by (simp add: toString_def unavailable_def str_def)
  ultimately show ?thesis
    by simp
qed

subsection \<open>Chat service\<close>

lemma chatCalls_nth:
  assumes "i < length calls"
  shows "chatCalls send random calls c ! i =
     (case calls ! i of
        StartChat useGrounding \<Rightarrow> None
      | SendMessageToChat message \<Rightarrow>
          Some (sendMessageToChat send random (chatAfter (take i calls) c) message))"
  using assms
proof (induction calls arbitrary: i c)
  case Nil
  then show ?case by simp
next
  case (Cons call calls)
  show ?case
  proof (cases i)
    case 0
    then show ?thesis
      by (cases call) simp_all
  next
    case (Suc j)
    with Cons.prems have "j < length calls"
      by simp
    from Cons.IH [OF this] Suc show ?thesis
      by (cases call) (simp_all split: chatCall.split)
  qed
qed

lemma chatAfter_started: "c \<noteq> None \<Longrightarrow> chatAfter calls c \<noteq> None"
  by (induction calls c rule: chatAfter.induct) (simp_all add: startChat_def)

lemma chatAfter_None:
  "chatAfter calls None = None \<longleftrightarrow> \<not> list_ex isStartChat calls"
proof (induction calls)
  case Nil
  then show ?case by simp
next
  case (Cons call calls)
  show ?case
  proof (cases call)
    case (StartChat useGrounding)
    have "chatAfter calls (startChat useGrounding None) \<noteq> None"
      by (rule chatAfter_started) (simp add: startChat_def)
    with StartChat show ?thesis
      by simp
  next
    case (SendMessageToChat message)
    with Cons.IH show ?thesis
      by simp
  qed
qed

text \<open>
  Claim C10. In any sequence of calls into the module that starts with no chat session,
  a \<^verbatim>\<open>sendMessageToChat\<close> with no \<^verbatim>\<open>startChat\<close> before it throws
  \<^verbatim>\<open>Chat not initialized. Call startChat first.\<close>, and one with a \<^verbatim>\<open>startChat\<close> before
  it returns what \<^verbatim>\<open>withRetry\<close> returns for \<^verbatim>\<open>sendMessageStream\<close> on the current
  session. Directly after \<^verbatim>\<open>startChat\<close> that session is the one just created.
\<close>

theorem C10_chat_initialization:
  assumes "i < length calls" and "calls ! i = SendMessageToChat message"
  shows "(\<not> list_ex isStartChat (take i calls) \<longrightarrow>
            chatCalls send random calls None ! i = Some (Inl notInitialized, [])) \<and>
         (list_ex isStartChat (take i calls) \<longrightarrow>
            (\<exists>session. chatAfter (take i calls) None = Some session \<and>
               chatCalls send random calls None ! i =
                 Some (withRetry (send session message) random 3 2000))) \<and>
         sendMessageToChat send random (startChat useGrounding c) message =
           withRetry (send \<lparr>chatModel = str ''gemini-2.5-flash'',
               systemInstruction = str ''You are a helpful and friendly chatbot.'',
               googleSearch = useGrounding\<rparr> message) random 3 2000"
proof -
  have r: "chatCalls send random calls None ! i =
      Some (sendMessageToChat send random (chatAfter (take i calls) None) message)"
    using chatCalls_nth [OF assms(1), of send random None] assms(2) by simp
  have a: "chatCalls send random calls None ! i = Some (Inl notInitialized, [])"
    if "\<not> list_ex isStartChat (take i calls)"
  proof -
    from that have "chatAfter (take i calls) None = None"
      by (simp add: chatAfter_None)
    then show ?thesis
      by (simp add: r sendMessageToChat_def notInitialized_def)
  qed
  have b: "\<exists>session. chatAfter (take i calls) None = Some session \<and>
      chatCalls send random calls None ! i = Some (withRetry (send session message) random 3 2000)"
    if "list_ex isStartChat (take i calls)"
  proof -
    from that have "chatAfter (take i calls) None \<noteq> None"
      by (simp add: chatAfter_None)
    then obtain session where "chatAfter (take i calls) None = Some session"
      by blast
    then show ?thesis
      by (simp add: r sendMessageToChat_def)
  qed
  have c: "sendMessageToChat send random (startChat useGrounding c) message =
      withRetry (send \<lparr>chatModel = str ''gemini-2.5-flash'',
          systemInstruction = str ''You are a helpful and friendly chatbot.'',
          googleSearch = useGrounding\<rparr> message) random 3 2000"
    by (simp add: sendMessageToChat_def startChat_def)
  from a b c show ?thesis
    by blast
qed

text \<open>
  Witness for C10: a message before and a message after \<^verbatim>\<open>startChat\<close>.
\<close>

theorem C10_chat_initialization_witness:
  "chatCalls (\<lambda>c m k. Inr m) (\<lambda>k. 0)
      [SendMessageToChat (str ''hi''), StartChat True, SendMessageToChat (str ''hello'')] None ! 0 =
     Some (Inl notInitialized, []) \<and>
   chatCalls (\<lambda>c m k. Inr m) (\<lambda>k. 0)
      [SendMessageToChat (str ''hi''), StartChat True, SendMessageToChat (str ''hello'')] None ! 2 =
     Some (Inr (str ''hello''), [])"
proof -
  let ?calls = "[SendMessageToChat (str ''hi''), StartChat True, SendMessageToChat (str ''hello'')]"
  let ?send = "\<lambda>(c::chat) (m::jsstring) (k::nat). (Inr m :: js_error + jsstring)"
  have 0: "0 < length ?calls" "?calls ! 0 = SendMessageToChat (str ''hi'')"
    and 2: "2 < length ?calls" "?calls ! 2 = SendMessageToChat (str ''hello'')"
    by simp_all
  have w: "withRetry (?send session m) random 3 2000 = (Inr m, [])" for session m random
    by (simp add: withRetry_def withRetry_loop_success)
  from C10_chat_initialization [OF 0, of ?send "\<lambda>k. 0"]
  have a: "chatCalls ?send (\<lambda>k. 0) ?calls None ! 0 = Some (Inl notInitialized, [])"
    by simp
  from C10_chat_initialization [OF 2, of ?send "\<lambda>k. 0"]
  have b: "chatCalls ?send (\<lambda>k. 0) ?calls None ! 2 = Some (Inr (str ''hello''), [])"
    by (auto simp: w)
  from a b show ?thesis
    by (simp only: simp_thms)
qed

end
